theory Spec2Isabelle
  imports Main "HOL-Library.Word"
begin

unbundle bit_operations_syntax

section \<open>Machine types and the outcome of a call\<close>

text \<open>
  The driver is C for a 32-bit RISC-V core: \<open>uchar\<close> is an 8-bit and \<open>uint\<close> a 32-bit
  unsigned integer, both with wrap-around arithmetic.
\<close>

type_synonym uchar = "8 word"
type_synonym uint = "32 word"

text \<open>
  A C call either returns, spins forever in the completion poll, or runs into an access
  outside an array (undefined behaviour in C). The three outcomes are kept apart.
\<close>

datatype 'a outcome = Returns 'a | Hangs | OutOfBounds

fun obind :: "'a outcome \<Rightarrow> ('a \<Rightarrow> 'b outcome) \<Rightarrow> 'b outcome" where
  "obind (Returns x) f = f x"
| "obind Hangs f = Hangs"
| "obind OutOfBounds f = OutOfBounds"

fun ofold :: "('x \<Rightarrow> 's \<Rightarrow> 's outcome) \<Rightarrow> 'x list \<Rightarrow> 's \<Rightarrow> 's outcome" where
  "ofold f [] s = Returns s"
| "ofold f (x # xs) s = obind (f x s) (ofold f xs)"

section \<open>The two-word bit counter\<close>

text \<open>
  \<^verbatim>\<open>#define DBL_INT_ADD(a,b,c) if (a > 0xffffffff - (c)) ++b; a += c;\<close>
  The pair is \<open>(a, b)\<close>: \<open>a\<close> is \<open>bitlen[0]\<close> (the low word), \<open>b\<close> is \<open>bitlen[1]\<close>.
\<close>

definition DBL_INT_ADD :: "uint \<times> uint \<Rightarrow> uint \<Rightarrow> uint \<times> uint" where
  "DBL_INT_ADD ab c =
     (case ab of (a, b) \<Rightarrow> (a + c, if a > 0xffffffff - c then b + 1 else b))"

section \<open>Memory-mapped registers\<close>

definition REG_BASE0 :: uint where "REG_BASE0 = 0x80001300"
definition REG_CONTROL :: "uint \<Rightarrow> uint" where "REG_CONTROL base = base + 0x00"
definition REG_MSG_BASE :: "uint \<Rightarrow> uint" where "REG_MSG_BASE base = base + 0x04"
definition REG_STATE_IN_BASE :: "uint \<Rightarrow> uint" where "REG_STATE_IN_BASE base = base + 0x44"
definition REG_STATE_OUT_BASE :: "uint \<Rightarrow> uint" where "REG_STATE_OUT_BASE base = base + 0x64"

definition CTRL_GO :: uint where "CTRL_GO = 0x00000001"
definition CTRL_DONE :: uint where "CTRL_DONE = 0x80000000"

text \<open>
  The registers are \<open>volatile\<close>: every access reaches the device, in program order.
  A device is given by what a write does to its state and what a read returns; the bus
  keeps the device's state and the log of all accesses made so far.
\<close>

datatype event = Write uint uint | Read uint uint

record 'd device =
  dev_write :: "uint \<Rightarrow> uint \<Rightarrow> 'd \<Rightarrow> 'd"
  dev_read :: "uint \<Rightarrow> 'd \<Rightarrow> uint \<times> 'd"

record 'd bus =
  hw :: 'd
  trace :: "event list"

definition READ_REG :: "'d device \<Rightarrow> uint \<Rightarrow> 'd bus \<Rightarrow> uint \<times> 'd bus" where
  "READ_REG dev addr w =
     (case dev_read dev addr (hw w) of
        (v, d) \<Rightarrow> (v, \<lparr>hw = d, trace = trace w @ [Read addr v]\<rparr>))"

definition WRITE_REG :: "'d device \<Rightarrow> uint \<Rightarrow> uint \<Rightarrow> 'd bus \<Rightarrow> 'd bus" where
  "WRITE_REG dev addr val w =
     \<lparr>hw = dev_write dev addr val (hw w), trace = trace w @ [Write addr val]\<rparr>"

section \<open>The context\<close>

text \<open>
  \<^verbatim>\<open>typedef struct { uchar data[64]; uint datalen; uint bitlen[2]; uint state[8]; } SHA256_CTX;\<close>
  The arrays are lists (64 bytes, 8 words); \<open>bitlen\<close> is the pair \<open>(bitlen[0], bitlen[1])\<close>.
  A store to \<open>data\<close> at an index of 64 or more is outside the array.
\<close>

record SHA256_CTX =
  data :: "uchar list"
  datalen :: uint
  bitlen :: "uint \<times> uint"
  state :: "uint list"

section \<open>SHA256Transform: one block through the accelerator\<close>

text \<open>
  \<^verbatim>\<open>m[i] = (data[j] << 24) | (data[j+1] << 16) | (data[j+2] << 8) | (data[j+3]);\<close>
\<close>

definition msg_word :: "uchar list \<Rightarrow> nat \<Rightarrow> uint" where
  "msg_word d j =
     push_bit 24 (ucast (d ! j)) OR push_bit 16 (ucast (d ! (j + 1)))
       OR push_bit 8 (ucast (d ! (j + 2))) OR ucast (d ! (j + 3))"

text \<open>The two write loops and the two writes to the control register.\<close>

definition transform_issue :: "'d device \<Rightarrow> SHA256_CTX \<Rightarrow> uchar list \<Rightarrow> 'd bus \<Rightarrow> 'd bus" where
  "transform_issue dev ctx d w =
     (let base = REG_BASE0;
          w1 = fold (\<lambda>i. WRITE_REG dev (REG_MSG_BASE base + of_nat i * 4) (msg_word d (4 * i)))
                 [0..<16] w;
          w2 = fold (\<lambda>i. WRITE_REG dev (REG_STATE_IN_BASE base + of_nat i * 4) (state ctx ! i))
                 [0..<8] w1;
          w3 = WRITE_REG dev (REG_CONTROL base) 0 w2
      in WRITE_REG dev (REG_CONTROL base) CTRL_GO w3)"

text \<open>
  \<^verbatim>\<open>while ((READ_REG(REG_CONTROL(base)) & CTRL_DONE) == 0) {}\<close>
  The loop has no bound; not returning is the value \<open>None\<close>.
\<close>

partial_function (option) poll_done :: "'d device \<Rightarrow> 'd bus \<Rightarrow> 'd bus option" where
  "poll_done dev w =
     (case READ_REG dev (REG_CONTROL REG_BASE0) w of
        (v, w') \<Rightarrow> if v AND CTRL_DONE = 0 then poll_done dev w' else Some w')"

text \<open>The first \<open>n\<close> iterations of the same loop; the flag tells whether DONE was seen.\<close>

fun poll_steps :: "nat \<Rightarrow> 'd device \<Rightarrow> 'd bus \<Rightarrow> bool \<times> 'd bus" where
  "poll_steps 0 dev w = (False, w)"
| "poll_steps (Suc n) dev w =
     (case READ_REG dev (REG_CONTROL REG_BASE0) w of
        (v, w') \<Rightarrow> if v AND CTRL_DONE = 0 then poll_steps n dev w' else (True, w'))"

text \<open>The read loop: \<^verbatim>\<open>ctx->state[i] = READ_REG(REG_STATE_OUT_BASE(base) + i * 4);\<close>\<close>

definition collect_word :: "'d device \<Rightarrow> nat \<Rightarrow> SHA256_CTX \<times> 'd bus \<Rightarrow> SHA256_CTX \<times> 'd bus" where
  "collect_word dev i cw =
     (case cw of (c, w) \<Rightarrow>
        case READ_REG dev (REG_STATE_OUT_BASE REG_BASE0 + of_nat i * 4) w of
          (v, w') \<Rightarrow> (c\<lparr>state := (state c)[i := v]\<rparr>, w'))"

definition transform_collect :: "'d device \<Rightarrow> SHA256_CTX \<Rightarrow> 'd bus \<Rightarrow> SHA256_CTX \<times> 'd bus" where
  "transform_collect dev ctx w = fold (collect_word dev) [0..<8] (ctx, w)"

text \<open>
  The block is passed as a pointer; the function reads its first 64 bytes.
\<close>

definition SHA256Transform ::
  "'d device \<Rightarrow> SHA256_CTX \<Rightarrow> uchar list \<Rightarrow> 'd bus \<Rightarrow> (SHA256_CTX \<times> 'd bus) outcome" where
  "SHA256Transform dev ctx d w =
     (if length d < 64 then OutOfBounds
      else case poll_done dev (transform_issue dev ctx d w) of
             None \<Rightarrow> Hangs
           | Some w' \<Rightarrow> Returns (transform_collect dev ctx w'))"

section \<open>SHA256Init, SHA256Update, SHA256Final\<close>

definition SHA256Init :: SHA256_CTX where
  "SHA256Init =
     \<lparr>data = replicate 64 0, datalen = 0, bitlen = (0, 0),
      state = [0x6a09e667, 0xbb67ae85, 0x3c6ef372, 0xa54ff53a,
               0x510e527f, 0x9b05688c, 0x1f83d9ab, 0x5be0cd19]\<rparr>"

text \<open>
  One iteration of the loop of \<open>SHA256Update\<close>:
  \<^verbatim>\<open>ctx->data[ctx->datalen++] = data[i];
  if (ctx->datalen == 64) { SHA256Transform(ctx, ctx->data);
                            DBL_INT_ADD(ctx->bitlen[0], ctx->bitlen[1], 512);
                            ctx->datalen = 0; }\<close>
\<close>

definition update_byte ::
  "'d device \<Rightarrow> uchar \<Rightarrow> SHA256_CTX \<times> 'd bus \<Rightarrow> (SHA256_CTX \<times> 'd bus) outcome" where
  "update_byte dev b cw =
     (case cw of (ctx, w) \<Rightarrow>
        if unat (datalen ctx) \<ge> 64 then OutOfBounds
        else
          let ctx1 = ctx\<lparr>data := (data ctx)[unat (datalen ctx) := b],
                         datalen := datalen ctx + 1\<rparr>
          in if datalen ctx1 = 64
             then obind (SHA256Transform dev ctx1 (data ctx1) w)
                    (\<lambda>(ctx2, w2).
                       Returns (ctx2\<lparr>bitlen := DBL_INT_ADD (bitlen ctx2) 512, datalen := 0\<rparr>, w2))
             else Returns (ctx1, w))"

text \<open>
  \<^verbatim>\<open>void SHA256Update(SHA256_CTX *ctx, uchar *data, uint len)\<close>: the argument \<open>d\<close> is
  the memory the pointer refers to, \<open>len\<close> the 32-bit count; the loop reads \<open>d[i]\<close> for
  \<open>i < len\<close>.
\<close>

definition SHA256Update ::
  "'d device \<Rightarrow> SHA256_CTX \<Rightarrow> uchar list \<Rightarrow> uint \<Rightarrow> 'd bus \<Rightarrow> (SHA256_CTX \<times> 'd bus) outcome" where
  "SHA256Update dev ctx d len w =
     ofold (\<lambda>i cw. if i < length d then update_byte dev (d ! i) cw else OutOfBounds)
       [0..<unat len] (ctx, w)"

text \<open>\<^verbatim>\<open>while (i < n) ctx->data[i++] = 0x00;\<close>\<close>

function zero_fill :: "uchar list \<Rightarrow> nat \<Rightarrow> nat \<Rightarrow> uchar list \<times> nat" where
  "zero_fill buf i n = (if i < n then zero_fill (buf[i := 0]) (Suc i) n else (buf, i))"
  by pat_completeness auto
termination
  by (relation "measure (\<lambda>(buf, i, n). n - i)") auto

declare zero_fill.simps [simp del]

text \<open>
  The eight stores \<^verbatim>\<open>ctx->data[63] = ctx->bitlen[0]; ... ctx->data[56] = ctx->bitlen[1] >> 24;\<close>
  (each store truncates to a byte).
\<close>

definition store_bitlen :: "uint \<times> uint \<Rightarrow> uchar list \<Rightarrow> uchar list" where
  "store_bitlen bl buf =
     (case bl of (lo, hi) \<Rightarrow>
        buf[63 := ucast lo, 62 := ucast (drop_bit 8 lo), 61 := ucast (drop_bit 16 lo),
            60 := ucast (drop_bit 24 lo), 59 := ucast hi, 58 := ucast (drop_bit 8 hi),
            57 := ucast (drop_bit 16 hi), 56 := ucast (drop_bit 24 hi)])"

text \<open>
  The output loop: \<^verbatim>\<open>hash[i + 4*k] = (ctx->state[k] >> (24 - i * 8)) & 0xff\<close> for
  \<open>i < 4\<close>, \<open>k < 8\<close>; byte \<open>n\<close> of the digest is the one written for \<open>k = n div 4\<close>,
  \<open>i = n mod 4\<close>.
\<close>

definition hash_bytes :: "uint list \<Rightarrow> uchar list" where
  "hash_bytes st =
     map (\<lambda>n. ucast (drop_bit (24 - (n mod 4) * 8) (st ! (n div 4)) AND 0xff)) [0..<32]"

definition SHA256Final ::
  "'d device \<Rightarrow> SHA256_CTX \<Rightarrow> 'd bus \<Rightarrow> (SHA256_CTX \<times> uchar list \<times> 'd bus) outcome" where
  "SHA256Final dev ctx w =
     (let i = unat (datalen ctx);
          ctx1 = ctx\<lparr>bitlen := DBL_INT_ADD (bitlen ctx) (datalen ctx * 8)\<rparr>
      in if i \<ge> 64 then OutOfBounds
         else
           let ctx2 = ctx1\<lparr>data := (data ctx1)[i := 0x80]\<rparr>;
               i = Suc i
           in obind
                (if i > 56
                 then obind
                        (SHA256Transform dev
                           (ctx2\<lparr>data := fst (zero_fill (data ctx2) i 64)\<rparr>)
                           (fst (zero_fill (data ctx2) i 64)) w)
                        (\<lambda>(c, w'). Returns (c, 0, w'))
                 else Returns (ctx2, i, w))
                (\<lambda>(ctx3, i, w3).
                   let ctx4 = ctx3\<lparr>data := fst (zero_fill (data ctx3) i 56)\<rparr>;
                       ctx5 = ctx4\<lparr>data := store_bitlen (bitlen ctx4) (data ctx4)\<rparr>
                   in obind (SHA256Transform dev ctx5 (data ctx5) w3)
                        (\<lambda>(ctx6, w6). Returns (ctx6, hash_bytes (state ctx6), w6))))"

section \<open>The one-shot interface\<close>

text \<open>
  \<open>strlen\<close>: the number of bytes before the first NUL of the buffer; reading past a
  buffer with no NUL is out of bounds.
\<close>

definition strlen :: "uchar list \<Rightarrow> nat outcome" where
  "strlen buf = (if 0 \<in> set buf then Returns (length (takeWhile (\<lambda>b. b \<noteq> 0) buf)) else OutOfBounds)"

text \<open>\<^verbatim>\<open>sprintf(hashStr + i * 2, "%02x", hash[i]);\<close>\<close>

definition hex_digit :: "nat \<Rightarrow> char" where
  "hex_digit n = ''0123456789abcdef'' ! n"

definition hex_byte :: "uchar \<Rightarrow> string" where
  "hex_byte b = [hex_digit (unat b div 16), hex_digit (unat b mod 16)]"

text \<open>
  \<^verbatim>\<open>char* SHA256(char* data)\<close>: \<open>alloc_ok\<close> tells whether \<open>malloc(65)\<close> succeeds;
  the result \<open>None\<close> is the NULL pointer, \<open>Some s\<close> the 64 characters of the string
  returned. The length is converted to the 32-bit \<open>len\<close> parameter.
\<close>

definition SHA256 ::
  "'d device \<Rightarrow> bool \<Rightarrow> uchar list \<Rightarrow> 'd bus \<Rightarrow> (string option \<times> 'd bus) outcome" where
  "SHA256 dev alloc_ok buf w =
     (if \<not> alloc_ok then Returns (None, w)
      else
        obind (strlen buf) (\<lambda>n.
        obind (SHA256Update dev SHA256Init buf (of_nat n) w) (\<lambda>(ctx1, w1).
        obind (SHA256Final dev ctx1 w1) (\<lambda>(ctx2, hash, w2).
        Returns (Some (concat (map hex_byte hash)), w2)))))"

section \<open>The accelerator behind the registers\<close>

text \<open>
  Modelled from the spec: the accelerator itself (the hardware is no part of the driver
  source). Section 6 of the specification gives its register bank: bit 0 of Control is GO,
  bit 31 is DONE; message words at offsets 0x04 to 0x40, state-in words at 0x44 to 0x60,
  state-out words at 0x64 to 0x80. A write of GO runs one round of \<open>f\<close> on the message and
  state-in registers and puts the result into the state-out registers; DONE is shown after
  \<open>lat\<close> further reads of Control, and a write without GO clears it.
\<close>

record accel =
  regs :: "uint \<Rightarrow> uint"
  finished :: bool
  busy :: nat

definition is_input_reg :: "uint \<Rightarrow> bool" where
  "is_input_reg addr =
     (REG_MSG_BASE REG_BASE0 \<le> addr \<and> addr < REG_STATE_OUT_BASE REG_BASE0
        \<and> (addr - REG_BASE0) AND 3 = 0)"

definition accel_round :: "(uint list \<Rightarrow> uint list \<Rightarrow> uint list) \<Rightarrow> (uint \<Rightarrow> uint) \<Rightarrow> uint \<Rightarrow> uint" where
  "accel_round f r =
     (let out = f (map (\<lambda>i. r (REG_MSG_BASE REG_BASE0 + of_nat i * 4)) [0..<16])
                  (map (\<lambda>i. r (REG_STATE_IN_BASE REG_BASE0 + of_nat i * 4)) [0..<8])
      in fold (\<lambda>i r'. r'(REG_STATE_OUT_BASE REG_BASE0 + of_nat i * 4 := out ! i)) [0..<8] r)"

definition accel_write ::
  "(uint list \<Rightarrow> uint list \<Rightarrow> uint list) \<Rightarrow> nat \<Rightarrow> uint \<Rightarrow> uint \<Rightarrow> accel \<Rightarrow> accel" where
  "accel_write f lat addr v a =
     (if addr = REG_CONTROL REG_BASE0
      then if v AND CTRL_GO \<noteq> 0
           then a\<lparr>regs := accel_round f (regs a), finished := True, busy := lat\<rparr>
           else a\<lparr>finished := False\<rparr>
      else if is_input_reg addr then a\<lparr>regs := (regs a)(addr := v)\<rparr> else a)"

definition accel_read :: "uint \<Rightarrow> accel \<Rightarrow> uint \<times> accel" where
  "accel_read addr a =
     (if addr = REG_CONTROL REG_BASE0
      then if finished a \<and> busy a = 0 then (CTRL_DONE, a) else (0, a\<lparr>busy := busy a - 1\<rparr>)
      else (regs a addr, a))"

definition accelerator :: "(uint list \<Rightarrow> uint list \<Rightarrow> uint list) \<Rightarrow> nat \<Rightarrow> accel device" where
  "accelerator f lat = \<lparr>dev_write = accel_write f lat, dev_read = accel_read\<rparr>"

definition accel_reset :: "accel bus" where
  "accel_reset = \<lparr>hw = \<lparr>regs = (\<lambda>a. 0), finished = False, busy = 0\<rparr>, trace = []\<rparr>"

text \<open>A device that never shows DONE: every read returns 0 and writes are lost.\<close>

definition stuck_device :: "unit device" where
  "stuck_device = \<lparr>dev_write = (\<lambda>addr v d. d), dev_read = (\<lambda>addr d. (0, d))\<rparr>"

definition stuck_bus :: "unit bus" where
  "stuck_bus = \<lparr>hw = (), trace = []\<rparr>"

text \<open>
  Modelled from the spec: the compression function of FIPS 180-4, section 6.2.2, which
  section 4.2 of the specification requires of every transform engine: the message
  schedule from \<open>\<sigma>0\<close> and \<open>\<sigma>1\<close>, 64 rounds with the constants K and the functions
  \<open>\<Sigma>0\<close>, \<open>\<Sigma>1\<close>, Ch and Maj, and the working variables added back into the state.
\<close>

definition Ch :: "uint \<Rightarrow> uint \<Rightarrow> uint \<Rightarrow> uint" where
  "Ch x y z = (x AND y) XOR (NOT x AND z)"

definition Maj :: "uint \<Rightarrow> uint \<Rightarrow> uint \<Rightarrow> uint" where
  "Maj x y z = (x AND y) XOR (x AND z) XOR (y AND z)"

definition Sigma0 :: "uint \<Rightarrow> uint" where
  "Sigma0 x = word_rotr 2 x XOR word_rotr 13 x XOR word_rotr 22 x"

definition Sigma1 :: "uint \<Rightarrow> uint" where
  "Sigma1 x = word_rotr 6 x XOR word_rotr 11 x XOR word_rotr 25 x"

definition sigma0 :: "uint \<Rightarrow> uint" where
  "sigma0 x = word_rotr 7 x XOR word_rotr 18 x XOR drop_bit 3 x"

definition sigma1 :: "uint \<Rightarrow> uint" where
  "sigma1 x = word_rotr 17 x XOR word_rotr 19 x XOR drop_bit 10 x"

definition K256 :: "uint list" where
  "K256 =
    [0x428A2F98, 0x71374491, 0xB5C0FBCF, 0xE9B5DBA5, 0x3956C25B, 0x59F111F1, 0x923F82A4, 0xAB1C5ED5,
     0xD807AA98, 0x12835B01, 0x243185BE, 0x550C7DC3, 0x72BE5D74, 0x80DEB1FE, 0x9BDC06A7, 0xC19BF174,
     0xE49B69C1, 0xEFBE4786, 0x0FC19DC6, 0x240CA1CC, 0x2DE92C6F, 0x4A7484AA, 0x5CB0A9DC, 0x76F988DA,
     0x983E5152, 0xA831C66D, 0xB00327C8, 0xBF597FC7, 0xC6E00BF3, 0xD5A79147, 0x06CA6351, 0x14292967,
     0x27B70A85, 0x2E1B2138, 0x4D2C6DFC, 0x53380D13, 0x650A7354, 0x766A0ABB, 0x81C2C92E, 0x92722C85,
     0xA2BFE8A1, 0xA81A664B, 0xC24B8B70, 0xC76C51A3, 0xD192E819, 0xD6990624, 0xF40E3585, 0x106AA070,
     0x19A4C116, 0x1E376C08, 0x2748774C, 0x34B0BCB5, 0x391C0CB3, 0x4ED8AA4A, 0x5B9CCA4F, 0x682E6FF3,
     0x748F82EE, 0x78A5636F, 0x84C87814, 0x8CC70208, 0x90BEFFFA, 0xA4506CEB, 0xBEF9A3F7, 0xC67178F2]"

fun schedule :: "nat \<Rightarrow> uint list \<Rightarrow> uint list" where
  "schedule 0 ws = ws"
| "schedule (Suc n) ws =
     (let t = length ws
      in schedule n
           (ws @ [sigma1 (ws ! (t - 2)) + ws ! (t - 7) + sigma0 (ws ! (t - 15)) + ws ! (t - 16)]))"

fun sha_round :: "uint \<times> uint \<Rightarrow> uint list \<Rightarrow> uint list" where
  "sha_round (k, wt) [a, b, c, d, e, f, g, h] =
     (let t1 = h + Sigma1 e + Ch e f g + k + wt;
          t2 = Sigma0 a + Maj a b c
      in [t1 + t2, a, b, c, d + t1, e, f, g])"
| "sha_round kw vs = vs"

definition sha256_compress :: "uint list \<Rightarrow> uint list \<Rightarrow> uint list" where
  "sha256_compress m st = map2 (+) st (fold sha_round (zip K256 (schedule 48 m)) st)"

section \<open>Notions used to state the properties\<close>

text \<open>What a call returned, without the bus.\<close>

fun returned :: "('a \<times> 'w) outcome \<Rightarrow> 'a option" where
  "returned (Returns (x, w)) = Some x"
| "returned Hangs = None"
| "returned OutOfBounds = None"

text \<open>The access log at the return of a call.\<close>

fun traced :: "('a \<times> 'd bus) outcome \<Rightarrow> event list option" where
  "traced (Returns (x, w)) = Some (trace w)"
| "traced Hangs = None"
| "traced OutOfBounds = None"

text \<open>One \<open>SHA256Update\<close> call per chunk, in order, each with the chunk's length.\<close>

definition update_chunks ::
  "'d device \<Rightarrow> uchar list list \<Rightarrow> SHA256_CTX \<times> 'd bus \<Rightarrow> (SHA256_CTX \<times> 'd bus) outcome" where
  "update_chunks dev cs = ofold (\<lambda>c (ctx, w). SHA256Update dev ctx c (of_nat (length c)) w) cs"

text \<open>
  The single 64-bit counter of the specification: the pair read as \<open>hi * 2^32 + lo\<close>, its
  native addition modulo \<open>2^64\<close>, and its big-endian encoding in eight bytes.
\<close>

definition pair_value :: "uint \<times> uint \<Rightarrow> nat" where
  "pair_value p = (case p of (lo, hi) \<Rightarrow> unat hi * 2 ^ 32 + unat lo)"

definition add64 :: "nat \<Rightarrow> nat \<Rightarrow> nat" where
  "add64 t c = (t + c) mod 2 ^ 64"

definition be64_bytes :: "nat \<Rightarrow> uchar list" where
  "be64_bytes v = map (\<lambda>k. of_nat (v div 256 ^ (7 - k))) [0..<8]"

text \<open>
  The register accesses of one transform in the order the specification requires: the 16
  message words, the 8 state-in words, Control = 0, Control = GO, the values \<open>polls\<close> read
  from Control, and the 8 state-out words \<open>outs\<close>.
\<close>

definition block_words :: "uchar list \<Rightarrow> uint list" where
  "block_words d = map (\<lambda>i. msg_word d (4 * i)) [0..<16]"

definition issue_events :: "uchar list \<Rightarrow> uint list \<Rightarrow> event list" where
  "issue_events d st =
     map (\<lambda>i. Write (REG_MSG_BASE REG_BASE0 + of_nat i * 4) (block_words d ! i)) [0..<16]
     @ map (\<lambda>i. Write (REG_STATE_IN_BASE REG_BASE0 + of_nat i * 4) (st ! i)) [0..<8]
     @ [Write (REG_CONTROL REG_BASE0) 0, Write (REG_CONTROL REG_BASE0) CTRL_GO]"

definition poll_events :: "uint list \<Rightarrow> event list" where
  "poll_events polls = map (Read (REG_CONTROL REG_BASE0)) polls"

definition collect_events :: "uint list \<Rightarrow> event list" where
  "collect_events outs =
     map (\<lambda>i. Read (REG_STATE_OUT_BASE REG_BASE0 + of_nat i * 4) (outs ! i)) [0..<8]"

text \<open>The address of the \<open>k\<close>-th 32-bit register of the bank, counted from Control.\<close>

definition reg_addr :: "nat \<Rightarrow> uint" where
  "reg_addr k = REG_BASE0 + of_nat k * 4"

text \<open>DONE is clear in every value of \<open>vs\<close>.\<close>

definition all_busy :: "uint list \<Rightarrow> bool" where
  "all_busy vs = list_all (\<lambda>v. v AND CTRL_DONE = 0) vs"

text \<open>
  The contexts of a run on the message "abc": after the update, after finalize, and after
  a second finalize on the same context.
\<close>

definition abc_buffered :: SHA256_CTX where
  "abc_buffered =
     \<lparr>data = [0x61, 0x62, 0x63] @ replicate 61 0, datalen = 3, bitlen = (0, 0),
      state = state SHA256Init\<rparr>"

definition abc_finalized :: SHA256_CTX where
  "abc_finalized =
     \<lparr>data = [0x61, 0x62, 0x63, 0x80] @ replicate 52 0 @ [0, 0, 0, 0, 0, 0, 0, 0x18],
      datalen = 3, bitlen = (0x18, 0),
      state = [0xba7816bf, 0x8f01cfea, 0x414140de, 0x5dae2223,
               0xb00361a3, 0x96177a9c, 0xb410ff61, 0xf20015ad]\<rparr>"

definition abc_refinalized :: SHA256_CTX where
  "abc_refinalized =
     \<lparr>data = [0x61, 0x62, 0x63, 0x80] @ replicate 52 0 @ [0, 0, 0, 0, 0, 0, 0, 0x30],
      datalen = 3, bitlen = (0x30, 0),
      state = [0xb13a185d, 0x4a523e44, 0x2cd4c5ed, 0x14eea387,
               0x518e288c, 0x1b61f7b1, 0xcd21fd3e, 0x3acce6af]\<rparr>"

section \<open>Outcomes\<close>

lemma obind_Returns_iff:
  "obind m f = Returns y \<longleftrightarrow> (\<exists>x. m = Returns x \<and> f x = Returns y)"
  by (cases m) auto

lemma ofold_append: "ofold f (xs @ ys) s = obind (ofold f xs s) (ofold f ys)"
proof (induction xs arbitrary: s)
  case Nil
  show ?case by simp
next
  case (Cons x xs)
  show ?case by (cases "f x s") (simp_all add: Cons.IH)
qed

lemma ofold_map: "ofold f (map h xs) s = ofold (\<lambda>x. f (h x)) xs s"
proof (induction xs arbitrary: s)
  case Nil
  show ?case by simp
next
  case (Cons x xs)
  show ?case by (cases "f (h x) s") (simp_all add: Cons.IH)
qed

lemma ofold_cong: "(\<And>x s. x \<in> set xs \<Longrightarrow> f x s = g x s) \<Longrightarrow> ofold f xs s = ofold g xs s"
proof (induction xs arbitrary: s)
  case Nil
  show ?case by simp
next
  case (Cons x xs)
  have "f x s = g x s" using Cons.prems by simp
  moreover have "ofold f xs t = ofold g xs t" for t
    using Cons.prems by (intro Cons.IH) simp
  ultimately show ?case by (cases "g x s") simp_all
qed

section \<open>SHA256Update is a fold over the bytes\<close>

lemma SHA256Update_bytes:
  assumes "unat len \<le> length d"
  shows "SHA256Update dev ctx d len w = ofold (update_byte dev) (take (unat len) d) (ctx, w)"
proof -
  have "ofold (\<lambda>i cw. if i < length d then update_byte dev (d ! i) cw else OutOfBounds)
          [0..<unat len] (ctx, w)
        = ofold (\<lambda>i. update_byte dev (d ! i)) [0..<unat len] (ctx, w)"
    using assms by (intro ofold_cong) simp
  also have "\<dots> = ofold (update_byte dev) (map (\<lambda>i. d ! i) [0..<unat len]) (ctx, w)"
    by (simp add: ofold_map)
  also have "map (\<lambda>i. d ! i) [0..<unat len] = take (unat len) d"
    using assms by (intro nth_equalityI) simp_all
  finally show ?thesis by (simp add: SHA256Update_def)
qed

lemma SHA256Update_whole:
  assumes "length d < 2 ^ 32"
  shows "SHA256Update dev ctx d (of_nat (length d)) w = ofold (update_byte dev) d (ctx, w)"
proof -
  have "unat (of_nat (length d) :: uint) = length d"
    using assms by (simp add: unat_of_nat)
  then show ?thesis by (simp add: SHA256Update_bytes)
qed

lemma update_chunks_bytes:
  assumes "length (concat cs) < 2 ^ 32"
  shows "update_chunks dev cs cw = ofold (update_byte dev) (concat cs) cw"
  using assms
proof (induction cs arbitrary: cw)
  case Nil
  show ?case by (simp add: update_chunks_def)
next
  case (Cons c cs)
  obtain ctx w where cw: "cw = (ctx, w)" by (cases cw)
  have lc: "length c < 2 ^ 32" and lcs: "length (concat cs) < 2 ^ 32"
    using Cons.prems by simp_all
  have IH: "update_chunks dev cs x = ofold (update_byte dev) (concat cs) x" for x
    using Cons.IH lcs by simp
  have "update_chunks dev (c # cs) cw
        = obind (SHA256Update dev ctx c (of_nat (length c)) w) (update_chunks dev cs)"
    by (simp add: update_chunks_def cw)
  also have "update_chunks dev cs = ofold (update_byte dev) (concat cs)"
    using IH by blast
  also have "SHA256Update dev ctx c (of_nat (length c)) w = ofold (update_byte dev) c (ctx, w)"
    by (rule SHA256Update_whole [OF lc])
  finally show ?case by (simp add: ofold_append cw)
qed

text \<open>
  C1 (chunk invariance). For every device, every bus state and every way \<open>cs\<close> of cutting
  a byte sequence into chunks (empty chunks included), init, one update per chunk and
  finalize give the same outcome (context, 32-byte digest and bus) as init, one update
  with the whole sequence and finalize. The length of the sequence fits the 32-bit \<open>len\<close>
  parameter of the single call.
\<close>

theorem chunk_invariance:
  assumes "length (concat cs) < 2 ^ 32"
  shows "obind (update_chunks dev cs (SHA256Init, w)) (\<lambda>(ctx, w'). SHA256Final dev ctx w')
         = obind (SHA256Update dev SHA256Init (concat cs) (of_nat (length (concat cs))) w)
             (\<lambda>(ctx, w'). SHA256Final dev ctx w')"
  using assms by (simp add: update_chunks_bytes SHA256Update_whole)

theorem chunk_invariance_witness:
  "length (concat [[0x61, 0x62], [], [0x63 :: uchar]]) < 2 ^ 32 \<and>
   obind (update_chunks (accelerator sha256_compress 2) [[0x61, 0x62], [], [0x63]]
            (SHA256Init, accel_reset))
     (\<lambda>(ctx, w'). SHA256Final (accelerator sha256_compress 2) ctx w')
   = obind (SHA256Update (accelerator sha256_compress 2) SHA256Init
              (concat [[0x61, 0x62], [], [0x63]])
              (of_nat (length (concat [[0x61, 0x62], [], [0x63 :: uchar]]))) accel_reset)
       (\<lambda>(ctx, w'). SHA256Final (accelerator sha256_compress 2) ctx w')"
proof -
  have h: "length (concat [[0x61, 0x62], [], [0x63 :: uchar]]) < 2 ^ 32" by simp
  from chunk_invariance [OF h] show ?thesis using h by blast
qed

section \<open>The one-shot interface\<close>

lemma strlen_prefix:
  assumes "0 \<notin> set p"
  shows "strlen (p @ 0 # rest) = Returns (length p)"
proof -
  have "takeWhile (\<lambda>b. b \<noteq> 0) (p @ 0 # rest) = p"
    using assms
    by (intro takeWhile_eq_take_P_nth [THEN trans]) (auto simp: nth_append in_set_conv_nth)
  then show ?thesis by (simp add: strlen_def)
qed

lemma SHA256_prefix:
  assumes "0 \<notin> set p"
  shows "SHA256 dev True (p @ 0 # rest) w
         = obind (ofold (update_byte dev) (take (unat (of_nat (length p) :: uint)) p)
                    (SHA256Init, w))
             (\<lambda>(ctx1, w1). obind (SHA256Final dev ctx1 w1)
                (\<lambda>(ctx2, hash, w2). Returns (Some (concat (map hex_byte hash)), w2)))"
proof -
  have le: "unat (of_nat (length p) :: uint) \<le> length p"
    by (simp add: unat_of_nat)
  then have "unat (of_nat (length p) :: uint) \<le> length (p @ 0 # rest)"
    by simp
  then have "SHA256Update dev SHA256Init (p @ 0 # rest) (of_nat (length p)) w
             = ofold (update_byte dev)
                 (take (unat (of_nat (length p) :: uint)) (p @ 0 # rest)) (SHA256Init, w)"
    by (rule SHA256Update_bytes)
  also have "take (unat (of_nat (length p) :: uint)) (p @ 0 # rest)
             = take (unat (of_nat (length p) :: uint)) p"
    using le by simp
  finally show ?thesis
    by (simp add: SHA256_def strlen_prefix [OF assms])
qed

text \<open>
  C9. The one-shot function takes the length of its input with \<open>strlen\<close>: for a buffer
  \<open>p @ 0 # rest\<close> whose first NUL byte comes after the prefix \<open>p\<close>, the outcome is that of
  init, one update with exactly \<open>p\<close>, finalize and the hex encoding; the bytes \<open>rest\<close>
  after the first NUL have no influence on it.
\<close>

theorem SHA256_stops_at_first_NUL:
  assumes "0 \<notin> set p" and "length p < 2 ^ 32"
  shows "SHA256 dev True (p @ 0 # rest) w
         = obind (SHA256Update dev SHA256Init p (of_nat (length p)) w)
             (\<lambda>(ctx1, w1). obind (SHA256Final dev ctx1 w1)
                (\<lambda>(ctx2, hash, w2). Returns (Some (concat (map hex_byte hash)), w2)))
         \<and> SHA256 dev True (p @ 0 # rest) w = SHA256 dev True (p @ [0]) w"
proof -
  have "unat (of_nat (length p) :: uint) = length p"
    using assms(2) by (simp add: unat_of_nat)
  then have "SHA256 dev True (p @ 0 # rest) w
         = obind (ofold (update_byte dev) p (SHA256Init, w))
             (\<lambda>(ctx1, w1). obind (SHA256Final dev ctx1 w1)
                (\<lambda>(ctx2, hash, w2). Returns (Some (concat (map hex_byte hash)), w2)))"
    by (simp add: SHA256_prefix [OF assms(1)])
  moreover have "SHA256 dev True (p @ 0 # rest) w = SHA256 dev True (p @ [0]) w"
    by (simp add: SHA256_prefix [OF assms(1)])
  ultimately show ?thesis
    by (simp add: SHA256Update_whole [OF assms(2)])
qed

theorem SHA256_stops_at_first_NUL_witness:
  "0 \<notin> set [0x61, 0x62 :: uchar] \<and> length [0x61, 0x62 :: uchar] < 2 ^ 32 \<and>
   SHA256 (accelerator sha256_compress 2) True ([0x61, 0x62] @ 0 # [0x63, 0x64, 0]) accel_reset
   = obind (SHA256Update (accelerator sha256_compress 2) SHA256Init [0x61, 0x62]
              (of_nat (length [0x61, 0x62 :: uchar])) accel_reset)
       (\<lambda>(ctx1, w1). obind (SHA256Final (accelerator sha256_compress 2) ctx1 w1)
          (\<lambda>(ctx2, hash, w2). Returns (Some (concat (map hex_byte hash)), w2)))
   \<and> SHA256 (accelerator sha256_compress 2) True ([0x61, 0x62] @ 0 # [0x63, 0x64, 0]) accel_reset
     = SHA256 (accelerator sha256_compress 2) True ([0x61, 0x62] @ [0]) accel_reset"
proof -
  have h1: "0 \<notin> set [0x61, 0x62 :: uchar]" by simp
  have h2: "length [0x61, 0x62 :: uchar] < 2 ^ 32" by simp
  from SHA256_stops_at_first_NUL [OF h1 h2] show ?thesis using h1 h2 by blast
qed

text \<open>
  C10. When \<open>malloc\<close> fails the one-shot function returns NULL at once: the bus (device
  state and access log) is the one it was called with, so no register was read or written,
  and no context was set up, whatever the input buffer holds.
\<close>

theorem SHA256_alloc_failure: "SHA256 dev False buf w = Returns (None, w)"
  by (simp add: SHA256_def)

section \<open>The two-word counter is a 64-bit counter\<close>

lemma unat_uint_bound: "unat (x :: uint) < 4294967296"
  using unsigned_less [of x, where 'a = nat] by simp

lemma carry_iff: "(lo :: uint) > 0xffffffff - c \<longleftrightarrow> 4294967296 \<le> unat lo + unat c"
proof -
  have "c \<le> 0xffffffff" by (simp add: word_le_nat_alt) (use unat_uint_bound [of c] in simp)
  then have "unat (0xffffffff - c) = 4294967295 - unat c"
    by (simp add: unat_sub)
  then show ?thesis
    using unat_uint_bound [of c] by (simp add: word_less_nat_alt) linarith
qed

lemma DBL_INT_ADD_value: "pair_value (DBL_INT_ADD p c) = add64 (pair_value p) (unat c)"
proof -
  obtain lo hi where p: "p = (lo, hi)" by (cases p)
  define a b n where "a = unat lo" and "b = unat hi" and "n = unat c"
  have bounds: "a < 4294967296" "b < 4294967296" "n < 4294967296"
    by (simp_all add: a_def b_def n_def unat_uint_bound)
  have lo': "unat (lo + c) = (a + n) mod 4294967296"
    by (simp add: unat_word_ariths a_def n_def)
  have hi': "unat (hi + 1) = (b + 1) mod 4294967296"
    by (simp add: unat_word_ariths b_def)
  show ?thesis
  proof (cases "4294967296 \<le> a + n")
    case False
    then have "pair_value (DBL_INT_ADD p c) = b * 4294967296 + (a + n)"
      using lo' by (simp add: p DBL_INT_ADD_def pair_value_def carry_iff a_def b_def n_def)
    moreover have "b * 4294967296 + (a + n) < 18446744073709551616"
      using False bounds by simp
    ultimately show ?thesis
      by (simp add: add64_def pair_value_def p a_def b_def n_def)
  next
    case True
    then have l: "(a + n) mod 4294967296 = a + n - 4294967296"
      using bounds by (simp add: mod_if)
    have v: "pair_value (DBL_INT_ADD p c) = ((b + 1) mod 4294967296) * 4294967296 + (a + n - 4294967296)"
      using True lo' hi' l by (simp add: p DBL_INT_ADD_def pair_value_def carry_iff a_def b_def n_def)
    show ?thesis
    proof (cases "b + 1 < 4294967296")
      case True
      then have "pair_value (DBL_INT_ADD p c) = b * 4294967296 + (a + n)"
        using v \<open>4294967296 \<le> a + n\<close> by simp
      moreover have "b * 4294967296 + (a + n) < 18446744073709551616"
        using True bounds by simp
      ultimately show ?thesis
        by (simp add: add64_def pair_value_def p a_def b_def n_def)
    next
      case False
      then have b: "b = 4294967295" using bounds by simp
      have "pair_value (DBL_INT_ADD p c) = a + n - 4294967296"
        using v by (simp add: b)
      moreover have "(b * 4294967296 + (a + n)) mod 18446744073709551616 = a + n - 4294967296"
        using True bounds by (simp add: b mod_if)
      ultimately show ?thesis
        by (simp add: add64_def pair_value_def p a_def b_def n_def add.assoc)
    qed
  qed
qed

lemma DBL_INT_ADD_fold:
  "pair_value (fold (\<lambda>c p. DBL_INT_ADD p c) cs p) = fold (\<lambda>c t. add64 t (unat c)) cs (pair_value p)"
  by (induction cs arbitrary: p) (simp_all add: DBL_INT_ADD_value)

lemma add64_fold_sum:
  "t < 2 ^ 64 \<Longrightarrow> fold (\<lambda>c t. add64 t (unat c)) cs t = (t + sum_list (map unat cs)) mod 2 ^ 64"
proof (induction cs arbitrary: t)
  case Nil
  then show ?case by simp
next
  case (Cons c cs)
  have "add64 t (unat c) < 2 ^ 64" by (simp add: add64_def)
  then show ?case
    by (simp add: Cons.IH) (simp add: add64_def mod_add_left_eq add.assoc)
qed

section \<open>Padding and the length footer\<close>

lemma zero_fill_eq:
  "i \<le> n \<Longrightarrow> n \<le> length buf \<Longrightarrow>
   zero_fill buf i n = (take i buf @ replicate (n - i) 0 @ drop n buf, n)"
proof (induction buf i n rule: zero_fill.induct)
  case (1 buf i n)
  show ?case
  proof (cases "i < n")
    case True
    have "zero_fill buf i n = zero_fill (buf[i := 0]) (Suc i) n"
      using True by (subst zero_fill.simps) simp
    also have "\<dots> = (take (Suc i) (buf[i := 0]) @ replicate (n - Suc i) 0 @ drop n (buf[i := 0]), n)"
      using True "1.prems" by (intro "1.IH") simp_all
    also have "take (Suc i) (buf[i := 0]) = take i buf @ [0]"
      using True "1.prems" by (simp add: take_Suc_conv_app_nth)
    also have "drop n (buf[i := 0]) = drop n buf"
      using True by simp
    also have "(take i buf @ [0]) @ replicate (n - Suc i) 0 @ drop n buf
               = take i buf @ replicate (n - i) 0 @ drop n buf"
      using True by (simp add: Suc_diff_Suc flip: replicate_Suc)
    finally show ?thesis .
  next
    case False
    then have "i = n" using "1.prems" by simp
    then show ?thesis by (subst zero_fill.simps) simp
  qed
qed

lemma byte_eq:
  "m mod 256 = (unat x div 2 ^ k) mod 256 \<Longrightarrow> (of_nat m :: uchar) = ucast (drop_bit k (x :: uint))"
proof -
  assume h: "m mod 256 = (unat x div 2 ^ k) mod 256"
  have u: "unat (drop_bit k x) = unat x div 2 ^ k"
    using unat_drop_bit_eq [of k x] drop_bit_eq_div [of k "unat x"] by (simp only:)
  have "(ucast (drop_bit k x) :: uchar) = of_nat (unat (drop_bit k x))"
    by simp
  also have "\<dots> = of_nat (unat x div 2 ^ k)"
    by (simp only: u)
  also have "\<dots> = of_nat m"
    using h by (simp add: word_of_nat_eq_iff take_bit_eq_mod)
  finally show ?thesis by simp
qed

lemma upt8: "[0..<8] = [0, 1, 2, 3, 4, 5, 6, 7]"
  by code_simp

lemma lo_byte:
  assumes "j + 8 \<le> 32"
  shows "((b * 2 ^ 32 + a) div 2 ^ j) mod 256 = (a div 2 ^ j) mod (256 :: nat)"
proof -
  have "(2 :: nat) ^ 32 = 2 ^ (32 - j - 8) * 256 * 2 ^ j"
    using assms by (simp flip: power_add add: numeral_2_eq_2 [symmetric])
  then have "b * 2 ^ 32 + a = a + (b * 2 ^ (32 - j - 8) * 256) * 2 ^ j"
    by simp
  then have "(b * 2 ^ 32 + a) div 2 ^ j = a div 2 ^ j + (b * 2 ^ (32 - j - 8)) * 256"
    by (simp only: div_mult_self1 [of "2 ^ j" a] ) simp
  then show ?thesis by simp
qed

lemma hi_byte:
  assumes "a < 2 ^ 32"
  shows "(b * 2 ^ 32 + a) div 2 ^ (32 + j) = b div (2 ^ j :: nat)"
proof -
  have "(b * 2 ^ 32 + a) div 2 ^ (32 + j) = (b * 2 ^ 32 + a) div 2 ^ 32 div 2 ^ j"
    by (simp add: power_add div_mult2_eq)
  also have "(b * 2 ^ 32 + a) div 2 ^ 32 = b"
    using assms by simp
  finally show ?thesis .
qed

lemma be64_bytes_pair:
  "be64_bytes (pair_value (lo, hi))
   = [ucast (drop_bit 24 hi), ucast (drop_bit 16 hi), ucast (drop_bit 8 hi), ucast hi,
      ucast (drop_bit 24 lo), ucast (drop_bit 16 lo), ucast (drop_bit 8 lo), ucast lo]"
proof -
  define a b where "a = unat lo" and "b = unat hi"
  have a: "a < 2 ^ 32" using unat_uint_bound [of lo] by (simp add: a_def)
  have e7: "(of_nat ((b * 4294967296 + a) div 72057594037927936) :: uchar) = ucast (drop_bit 24 hi)"
    using hi_byte [OF a, of b 24] by (intro byte_eq) (simp add: b_def)
  have e6: "(of_nat ((b * 4294967296 + a) div 281474976710656) :: uchar) = ucast (drop_bit 16 hi)"
    using hi_byte [OF a, of b 16] by (intro byte_eq) (simp add: b_def)
  have e5: "(of_nat ((b * 4294967296 + a) div 1099511627776) :: uchar) = ucast (drop_bit 8 hi)"
    using hi_byte [OF a, of b 8] by (intro byte_eq) (simp add: b_def)
  have e4: "(of_nat ((b * 4294967296 + a) div 4294967296) :: uchar) = ucast (drop_bit 0 hi)"
    using hi_byte [OF a, of b 0] by (intro byte_eq) (simp add: b_def)
  have e3: "(of_nat ((b * 4294967296 + a) div 16777216) :: uchar) = ucast (drop_bit 24 lo)"
    using lo_byte [of 24 b a] by (intro byte_eq) (simp add: a_def)
  have e2: "(of_nat ((b * 4294967296 + a) div 65536) :: uchar) = ucast (drop_bit 16 lo)"
    using lo_byte [of 16 b a] by (intro byte_eq) (simp add: a_def)
  have e1: "(of_nat ((b * 4294967296 + a) div 256) :: uchar) = ucast (drop_bit 8 lo)"
    using lo_byte [of 8 b a] by (intro byte_eq) (simp add: a_def)
  have e0: "(of_nat (b * 4294967296 + a) :: uchar) = ucast (drop_bit 0 lo)"
    using lo_byte [of 0 b a] by (intro byte_eq) (simp add: a_def)
  show ?thesis
    using e0 e1 e2 e3 e4 e5 e6 e7
    by (simp add: be64_bytes_def pair_value_def upt8 a_def b_def)
qed

lemma obind_cong: "(\<And>x. m = Returns x \<Longrightarrow> f x = g x) \<Longrightarrow> obind m f = obind m g"
  by (cases m) auto

lemma store_bitlen_eq:
  assumes "length buf = 64"
  shows "store_bitlen bl buf = take 56 buf @ be64_bytes (pair_value bl)"
proof -
  obtain lo hi where bl: "bl = (lo, hi)" by (cases bl)
  show ?thesis
  proof (rule nth_equalityI)
    show "length (store_bitlen bl buf) = length (take 56 buf @ be64_bytes (pair_value bl))"
      using assms by (simp add: store_bitlen_def bl be64_bytes_pair)
  next
    fix i
    assume "i < length (store_bitlen bl buf)"
    then have i: "i < 64" using assms by (simp add: store_bitlen_def bl)
    then consider "i < 56" | "i = 56" | "i = 57" | "i = 58" | "i = 59" | "i = 60"
      | "i = 61" | "i = 62" | "i = 63"
      by linarith
    then show "store_bitlen bl buf ! i = (take 56 buf @ be64_bytes (pair_value bl)) ! i"
      using assms
      by cases (simp_all add: store_bitlen_def bl be64_bytes_pair nth_append)
  qed
qed

lemma pad_one:
  assumes "length buf = 64" and "n < 56"
  shows "store_bitlen bl (fst (zero_fill (buf[n := 0x80]) (Suc n) 56))
         = take n buf @ [0x80] @ replicate (55 - n) 0 @ be64_bytes (pair_value bl)"
proof -
  have "fst (zero_fill (buf[n := 0x80]) (Suc n) 56)
        = take (Suc n) (buf[n := 0x80]) @ replicate (56 - Suc n) 0 @ drop 56 (buf[n := 0x80])"
    using assms by (subst zero_fill_eq) simp_all
  also have "take (Suc n) (buf[n := 0x80]) = take n buf @ [0x80]"
    using assms by (simp add: take_Suc_conv_app_nth)
  finally have z: "fst (zero_fill (buf[n := 0x80]) (Suc n) 56)
        = (take n buf @ [0x80] @ replicate (55 - n) 0) @ drop 56 (buf[n := 0x80])"
    by simp
  have l: "length (take n buf @ [0x80] @ replicate (55 - n) 0) = 56"
    using assms by simp
  have "length (fst (zero_fill (buf[n := 0x80]) (Suc n) 56)) = 64"
    using assms by (simp add: z)
  then have "store_bitlen bl (fst (zero_fill (buf[n := 0x80]) (Suc n) 56))
        = take 56 (fst (zero_fill (buf[n := 0x80]) (Suc n) 56)) @ be64_bytes (pair_value bl)"
    by (rule store_bitlen_eq)
  also have "take 56 (fst (zero_fill (buf[n := 0x80]) (Suc n) 56))
        = take n buf @ [0x80] @ replicate (55 - n) 0"
  proof -
    have "take 56 ((take n buf @ [0x80] @ replicate (55 - n) 0) @ drop 56 (buf[n := 0x80]))
          = take (length (take n buf @ [0x80] @ replicate (55 - n) 0))
              ((take n buf @ [0x80] @ replicate (55 - n) 0) @ drop 56 (buf[n := 0x80]))"
      by (simp only: l)
    also have "\<dots> = take n buf @ [0x80] @ replicate (55 - n) 0"
      by (rule append_eq_conv_conj [THEN iffD1, THEN conjunct1, symmetric]) simp
    finally show ?thesis by (simp only: z)
  qed
  finally show ?thesis by simp
qed

lemma pad_first:
  assumes "length buf = 64" and "56 \<le> n" and "n < 64"
  shows "fst (zero_fill (buf[n := 0x80]) (Suc n) 64) = take n buf @ [0x80] @ replicate (63 - n) 0"
proof -
  have "fst (zero_fill (buf[n := 0x80]) (Suc n) 64)
        = take (Suc n) (buf[n := 0x80]) @ replicate (64 - Suc n) 0 @ drop 64 (buf[n := 0x80])"
    using assms by (subst zero_fill_eq) simp_all
  also have "take (Suc n) (buf[n := 0x80]) = take n buf @ [0x80]"
    using assms by (simp add: take_Suc_conv_app_nth)
  finally show ?thesis using assms by simp
qed

lemma pad_second:
  assumes "length buf = 64"
  shows "store_bitlen bl (fst (zero_fill buf 0 56)) = replicate 56 0 @ be64_bytes (pair_value bl)"
proof -
  have z: "fst (zero_fill buf 0 56) = replicate 56 0 @ drop 56 buf"
    using assms by (subst zero_fill_eq) simp_all
  then have "length (fst (zero_fill buf 0 56)) = 64"
    using assms by simp
  then have "store_bitlen bl (fst (zero_fill buf 0 56))
        = take 56 (fst (zero_fill buf 0 56)) @ be64_bytes (pair_value bl)"
    by (rule store_bitlen_eq)
  then show ?thesis by (simp add: z)
qed

section \<open>What a transform leaves alone\<close>

lemma collect_fold_fields:
  "data (fst (fold (collect_word dev) xs (c0, w0))) = data c0
   \<and> datalen (fst (fold (collect_word dev) xs (c0, w0))) = datalen c0
   \<and> bitlen (fst (fold (collect_word dev) xs (c0, w0))) = bitlen c0"
proof (induction xs arbitrary: c0 w0)
  case Nil
  show ?case by simp
next
  case (Cons i xs)
  obtain c1 w1 where r: "collect_word dev i (c0, w0) = (c1, w1)"
    by (cases "collect_word dev i (c0, w0)")
  then have "data c1 = data c0 \<and> datalen c1 = datalen c0 \<and> bitlen c1 = bitlen c0"
    by (auto simp: collect_word_def split: prod.splits)
  then show ?case
    using Cons.IH [of c1 w1] by (simp add: r)
qed

lemma SHA256Transform_frame:
  assumes "SHA256Transform dev ctx d w = Returns (c, w')"
  shows "c = ctx\<lparr>state := state c\<rparr>"
proof -
  from assms obtain w1 where "transform_collect dev ctx w1 = (c, w')"
    by (auto simp: SHA256Transform_def split: if_splits option.splits)
  then have "c = fst (fold (collect_word dev) [0..<8] (ctx, w1))"
    by (simp add: transform_collect_def)
  then have "data c = data ctx \<and> datalen c = datalen ctx \<and> bitlen c = bitlen ctx"
    using collect_fold_fields [of dev "[0..<8]" ctx w1] by simp
  then show ?thesis
    by (intro SHA256_CTX.equality) simp_all
qed

lemma SHA256Transform_length:
  assumes "SHA256Transform dev ctx d w = Returns (c, w')"
  shows "64 \<le> length d"
  using assms by (auto simp: SHA256Transform_def split: if_splits)

section \<open>SHA256Final in closed form\<close>

lemma unat_datalen8: "unat (n :: uint) < 64 \<Longrightarrow> unat (n * 8) = 8 * unat n"
  by (simp add: unat_word_ariths)

lemma SHA256Final_closed_form:
  assumes "length (data ctx) = 64" and "unat (datalen ctx) < 64"
  shows "SHA256Final dev ctx w =
     (let n = unat (datalen ctx);
          bl = DBL_INT_ADD (bitlen ctx) (datalen ctx * 8);
          footer = be64_bytes (pair_value bl);
          single = take n (data ctx) @ [0x80] @ replicate (55 - n) 0 @ footer;
          filled = take n (data ctx) @ [0x80] @ replicate (63 - n) 0;
          fresh = replicate 56 0 @ footer
      in if n + 1 > 56
         then obind (SHA256Transform dev (ctx\<lparr>bitlen := bl, data := filled\<rparr>) filled w)
                (\<lambda>(c1, w1).
                   obind (SHA256Transform dev (c1\<lparr>data := fresh\<rparr>) fresh w1)
                     (\<lambda>(c2, w2). Returns (c2, hash_bytes (state c2), w2)))
         else obind (SHA256Transform dev (ctx\<lparr>bitlen := bl, data := single\<rparr>) single w)
                (\<lambda>(c, w'). Returns (c, hash_bytes (state c), w')))"
proof (cases "unat (datalen ctx) < 56")
  case True
  then show ?thesis
    using assms(1)
    by (simp add: SHA256Final_def Let_def pad_one)
next
  case False
  define n where "n = unat (datalen ctx)"
  define bl where "bl = DBL_INT_ADD (bitlen ctx) (datalen ctx * 8)"
  define filled where "filled = take n (data ctx) @ [0x80] @ replicate (63 - n) 0"
  define fresh where "fresh = replicate 56 0 @ be64_bytes (pair_value bl)"
  have n: "56 \<le> n" "n < 64" using False assms(2) by (simp_all add: n_def)
  have lf: "length filled = 64" using n assms(1) by (simp add: filled_def)
  have pf: "fst (zero_fill ((data ctx)[n := 0x80]) (Suc n) 64) = filled"
    using pad_first [OF assms(1) n] by (simp add: filled_def)
  have k: "obind (SHA256Transform dev
                 (c1\<lparr>data := store_bitlen (bitlen c1) (fst (zero_fill (data c1) 0 56))\<rparr>)
                 (store_bitlen (bitlen c1) (fst (zero_fill (data c1) 0 56))) w1)
               (\<lambda>(ctx6, w6). Returns (ctx6, hash_bytes (state ctx6), w6))
           = obind (SHA256Transform dev (c1\<lparr>data := fresh\<rparr>) fresh w1)
               (\<lambda>(c2, w2). Returns (c2, hash_bytes (state c2), w2))"
    if r: "SHA256Transform dev (ctx\<lparr>bitlen := bl, data := filled\<rparr>) filled w = Returns (c1, w1)"
    for c1 w1
  proof -
    have "c1 = ctx\<lparr>bitlen := bl, data := filled\<rparr>\<lparr>state := state c1\<rparr>"
      by (rule SHA256Transform_frame [OF r])
    then have d: "data c1 = filled" and b: "bitlen c1 = bl"
      by (metis SHA256_CTX.select_convs(1) SHA256_CTX.surjective SHA256_CTX.update_convs(1,3,4),
          metis SHA256_CTX.select_convs(3) SHA256_CTX.surjective SHA256_CTX.update_convs(1,3,4))
    show ?thesis
      by (simp add: d b pad_second [OF lf] fresh_def)
  qed
  have "SHA256Final dev ctx w
        = obind (obind (SHA256Transform dev (ctx\<lparr>bitlen := bl, data := filled\<rparr>) filled w)
                   (\<lambda>(c, w'). Returns (c, 0, w')))
            (\<lambda>(ctx3, i, w3).
               obind (SHA256Transform dev
                   (ctx3\<lparr>data := store_bitlen (bitlen ctx3) (fst (zero_fill (data ctx3) i 56))\<rparr>)
                   (store_bitlen (bitlen ctx3) (fst (zero_fill (data ctx3) i 56))) w3)
                 (\<lambda>(ctx6, w6). Returns (ctx6, hash_bytes (state ctx6), w6)))"
    using n pf by (simp add: SHA256Final_def Let_def n_def [symmetric] bl_def [symmetric])
  also have "\<dots> = obind (SHA256Transform dev (ctx\<lparr>bitlen := bl, data := filled\<rparr>) filled w)
                (\<lambda>(c1, w1).
                   obind (SHA256Transform dev (c1\<lparr>data := fresh\<rparr>) fresh w1)
                     (\<lambda>(c2, w2). Returns (c2, hash_bytes (state c2), w2)))"
    by (cases "SHA256Transform dev (ctx\<lparr>bitlen := bl, data := filled\<rparr>) filled w")
       (auto simp: k)
  finally show ?thesis
    using n by (simp add: Let_def n_def [symmetric] bl_def [symmetric] filled_def fresh_def)
qed

lemma SHA256Final_Returns:
  assumes r: "SHA256Final dev ctx w = Returns (ctx', h, w')" and l: "length (data ctx) = 64"
  shows "unat (datalen ctx) < 64"
    and "bitlen ctx' = DBL_INT_ADD (bitlen ctx) (datalen ctx * 8)"
    and "datalen ctx' = datalen ctx"
    and "length (data ctx') = 64"
    and "drop 56 (data ctx') = be64_bytes (pair_value (bitlen ctx'))"
    and "h = hash_bytes (state ctx')"
proof -
  define n where "n = unat (datalen ctx)"
  define bl where "bl = DBL_INT_ADD (bitlen ctx) (datalen ctx * 8)"
  define footer where "footer = be64_bytes (pair_value bl)"
  define single where "single = take n (data ctx) @ [0x80] @ replicate (55 - n) 0 @ footer"
  define filled where "filled = take n (data ctx) @ [0x80] @ replicate (63 - n) 0"
  define fresh where "fresh = replicate 56 0 @ footer"
  have lfoot: "length footer = 8" by (simp add: footer_def be64_bytes_def)
  show n64: "unat (datalen ctx) < 64"
    using r by (auto simp: SHA256Final_def Let_def split: if_splits)
  have eq: "SHA256Final dev ctx w =
      (if n + 1 > 56
         then obind (SHA256Transform dev (ctx\<lparr>bitlen := bl, data := filled\<rparr>) filled w)
                (\<lambda>(c1, w1).
                   obind (SHA256Transform dev (c1\<lparr>data := fresh\<rparr>) fresh w1)
                     (\<lambda>(c2, w2). Returns (c2, hash_bytes (state c2), w2)))
         else obind (SHA256Transform dev (ctx\<lparr>bitlen := bl, data := single\<rparr>) single w)
                (\<lambda>(c, w'). Returns (c, hash_bytes (state c), w')))"
    using SHA256Final_closed_form [OF l n64, of dev w]
    by (simp add: Let_def n_def bl_def footer_def single_def filled_def fresh_def)
  have "bitlen ctx' = bl \<and> datalen ctx' = datalen ctx \<and> h = hash_bytes (state ctx')
        \<and> (data ctx' = single \<and> n < 56 \<or> data ctx' = fresh)"
  proof (cases "n + 1 > 56")
    case True
    with r eq obtain c1 w1 where
      t1: "SHA256Transform dev (ctx\<lparr>bitlen := bl, data := filled\<rparr>) filled w = Returns (c1, w1)"
      and t2: "SHA256Transform dev (c1\<lparr>data := fresh\<rparr>) fresh w1 = Returns (ctx', w')"
      and h: "h = hash_bytes (state ctx')"
      by (auto simp: obind_Returns_iff)
    have f1: "c1 = ctx\<lparr>bitlen := bl, data := filled\<rparr>\<lparr>state := state c1\<rparr>"
      by (rule SHA256Transform_frame [OF t1])
    have f2: "ctx' = c1\<lparr>data := fresh\<rparr>\<lparr>state := state ctx'\<rparr>"
      by (rule SHA256Transform_frame [OF t2])
    have "bitlen c1 = bl" "datalen c1 = datalen ctx"
      using arg_cong [OF f1, of bitlen] arg_cong [OF f1, of datalen] by simp_all
    moreover have "bitlen ctx' = bitlen c1" "datalen ctx' = datalen c1" "data ctx' = fresh"
      using arg_cong [OF f2, of bitlen] arg_cong [OF f2, of datalen] arg_cong [OF f2, of data]
      by simp_all
    ultimately show ?thesis using h by simp
  next
    case False
    with r eq have
      t: "SHA256Transform dev (ctx\<lparr>bitlen := bl, data := single\<rparr>) single w = Returns (ctx', w')"
      and h: "h = hash_bytes (state ctx')"
      by (auto simp: obind_Returns_iff)
    have f: "ctx' = ctx\<lparr>bitlen := bl, data := single\<rparr>\<lparr>state := state ctx'\<rparr>"
      by (rule SHA256Transform_frame [OF t])
    have "bitlen ctx' = bl" "datalen ctx' = datalen ctx" "data ctx' = single"
      using arg_cong [OF f, of bitlen] arg_cong [OF f, of datalen] arg_cong [OF f, of data]
      by simp_all
    then show ?thesis using h False by simp
  qed
  then have b: "bitlen ctx' = bl" and d: "datalen ctx' = datalen ctx"
    and hh: "h = hash_bytes (state ctx')"
    and dd: "data ctx' = single \<and> n < 56 \<or> data ctx' = fresh"
    by simp_all
  show "bitlen ctx' = DBL_INT_ADD (bitlen ctx) (datalen ctx * 8)" using b by (simp add: bl_def)
  show "datalen ctx' = datalen ctx" by (rule d)
  show "h = hash_bytes (state ctx')" by (rule hh)
  have ls: "n < 56 \<Longrightarrow> length (take n (data ctx) @ [0x80] @ replicate (55 - n) 0) = 56"
    using l by simp
  have s: "n < 56 \<Longrightarrow> drop 56 single = footer"
    unfolding single_def using ls
    by (metis append.assoc append_eq_conv_conj)
  have "drop 56 fresh = footer" by (simp add: fresh_def)
  with dd s have "drop 56 (data ctx') = footer" by auto
  then show "drop 56 (data ctx') = be64_bytes (pair_value (bitlen ctx'))"
    by (simp add: footer_def b)
  from dd show "length (data ctx') = 64"
    using l lfoot by (auto simp: single_def fresh_def)
qed

section \<open>The accelerator runs one transform\<close>

lemma unat_reg_addr: "k < 64 \<Longrightarrow> unat (reg_addr k) = 2147488512 + 4 * k"
  by (simp add: reg_addr_def REG_BASE0_def unat_word_ariths unat_of_nat)

lemma reg_addr_inj: "i < 64 \<Longrightarrow> j < 64 \<Longrightarrow> reg_addr i = reg_addr j \<longleftrightarrow> i = j"
proof
  assume "i < 64" "j < 64" "reg_addr i = reg_addr j"
  then have "unat (reg_addr i) = unat (reg_addr j)" by simp
  then show "i = j" using \<open>i < 64\<close> \<open>j < 64\<close> by (simp add: unat_reg_addr)
qed simp

lemma reg_addr_forms:
  "REG_CONTROL REG_BASE0 = reg_addr 0"
  "REG_MSG_BASE REG_BASE0 + of_nat i * 4 = reg_addr (Suc i)"
  "REG_STATE_IN_BASE REG_BASE0 + of_nat i * 4 = reg_addr (17 + i)"
  "REG_STATE_OUT_BASE REG_BASE0 + of_nat i * 4 = reg_addr (25 + i)"
  by (simp_all add: reg_addr_def REG_CONTROL_def REG_MSG_BASE_def REG_STATE_IN_BASE_def
      REG_STATE_OUT_BASE_def algebra_simps)

lemma is_input_reg_enum: "\<forall>k \<in> set [0..<33]. is_input_reg (reg_addr k) = (1 \<le> k \<and> k < 25)"
  by code_simp

lemma is_input_reg_addr: "k < 33 \<Longrightarrow> is_input_reg (reg_addr k) = (1 \<le> k \<and> k < 25)"
  using is_input_reg_enum by simp

lemma fold_WRITE_REG:
  "fold (\<lambda>i. WRITE_REG dev (a i) (v i)) xs w
   = \<lparr>hw = fold (\<lambda>i. dev_write dev (a i) (v i)) xs (hw w),
      trace = trace w @ map (\<lambda>i. Write (a i) (v i)) xs\<rparr>"
  by (induction xs arbitrary: w) (simp_all add: WRITE_REG_def)

lemma accel_write_input:
  "1 \<le> k \<Longrightarrow> k < 25 \<Longrightarrow> accel_write f lat (reg_addr k) v a = a\<lparr>regs := (regs a)(reg_addr k := v)\<rparr>"
  using reg_addr_inj [of k 0] is_input_reg_addr [of k]
  by (simp add: accel_write_def reg_addr_forms)

lemma fold_accel_write:
  assumes "\<And>i. i \<in> set xs \<Longrightarrow> 1 \<le> k i \<and> k i < 25"
  shows "fold (\<lambda>i. accel_write f lat (reg_addr (k i)) (v i)) xs a
         = a\<lparr>regs := fold (\<lambda>i r. r(reg_addr (k i) := v i)) xs (regs a)\<rparr>"
  using assms
proof (induction xs arbitrary: a)
  case Nil
  show ?case by simp
next
  case (Cons x xs)
  have "1 \<le> k x" "k x < 25" using Cons.prems [of x] by simp_all
  then show ?case
    using Cons.prems by (simp add: accel_write_input Cons.IH)
qed

lemma fold_upd_other:
  "x \<notin> A ` set xs \<Longrightarrow> fold (\<lambda>i r. r(A i := v i)) xs r x = r x"
  by (induction xs arbitrary: r) auto

lemma fold_upd_apply:
  "inj_on A (set xs) \<Longrightarrow> j \<in> set xs \<Longrightarrow> fold (\<lambda>i r. r(A i := v i)) xs r (A j) = v j"
proof (induction xs arbitrary: r)
  case Nil
  then show ?case by simp
next
  case (Cons i xs)
  show ?case
  proof (cases "j \<in> set xs")
    case True
    then show ?thesis using Cons by (simp add: inj_on_def)
  next
    case False
    then have j: "j = i" using Cons.prems by simp
    have "A i \<notin> A ` set xs"
      using Cons.prems(1) False j by (auto simp: inj_on_def)
    then have "fold (\<lambda>i r. r(A i := v i)) xs (r(A i := v i)) (A i) = (r(A i := v i)) (A i)"
      by (rule fold_upd_other)
    then show ?thesis by (simp add: j del: fun_upd_apply) simp
  qed
qed

lemma fold_list_update:
  "n \<le> length s \<Longrightarrow> fold (\<lambda>i s. s[i := g i]) [0..<n] s = map g [0..<n] @ drop n s"
proof (induction n)
  case 0
  show ?case by simp
next
  case (Suc n)
  then have "fold (\<lambda>i s. s[i := g i]) [0..<Suc n] s = (map g [0..<n] @ drop n s)[n := g n]"
    by simp
  also have "\<dots> = map g [0..<n] @ (drop n s)[0 := g n]"
    by (simp add: list_update_append)
  also have "(drop n s)[0 := g n] = g n # drop (Suc n) s"
    using Suc.prems by (simp add: Cons_nth_drop_Suc [symmetric])
  finally show ?case by simp
qed

lemma accel_issue:
  assumes "length (state ctx) = 8"
  shows "\<exists>R tr. transform_issue (accelerator f lat) ctx d w
           = \<lparr>hw = \<lparr>regs = R, finished = True, busy = lat\<rparr>, trace = tr\<rparr>
         \<and> (\<forall>i<8. R (reg_addr (25 + i)) = f (block_words d) (state ctx) ! i)"
proof -
  define r1 where "r1 = fold (\<lambda>i r. r(reg_addr (Suc i) := msg_word d (4 * i))) [0..<16] (regs (hw w))"
  define r2 where "r2 = fold (\<lambda>i r. r(reg_addr (17 + i) := state ctx ! i)) [0..<8] r1"
  define out where "out = f (block_words d) (state ctx)"
  define r3 where "r3 = fold (\<lambda>i r. r(reg_addr (25 + i) := out ! i)) [0..<8] r2"
  have inj1: "inj_on (\<lambda>i. reg_addr (Suc i)) (set [0..<16])"
    by (auto simp: inj_on_def reg_addr_inj)
  have inj2: "inj_on (\<lambda>i. reg_addr (17 + i)) (set [0..<8])"
    by (auto simp: inj_on_def reg_addr_inj)
  have inj3: "inj_on (\<lambda>i. reg_addr (25 + i)) (set [0..<8])"
    by (auto simp: inj_on_def reg_addr_inj)
  have m: "r2 (reg_addr (Suc i)) = msg_word d (4 * i)" if "i < 16" for i
  proof -
    have "reg_addr (Suc i) \<notin> (\<lambda>j. reg_addr (17 + j)) ` set [0..<8]"
      using that by (auto simp: reg_addr_inj)
    then have "r2 (reg_addr (Suc i)) = r1 (reg_addr (Suc i))"
      unfolding r2_def by (rule fold_upd_other)
    also have "\<dots> = msg_word d (4 * i)"
      unfolding r1_def using that by (intro fold_upd_apply [OF inj1]) simp
    finally show ?thesis .
  qed
  have s: "r2 (reg_addr (17 + i)) = state ctx ! i" if "i < 8" for i
    unfolding r2_def using that by (intro fold_upd_apply [OF inj2]) simp
  have "map (\<lambda>i. r2 (reg_addr (Suc i))) [0..<16] = block_words d"
    using m by (simp add: block_words_def)
  moreover have "map (\<lambda>i. r2 (reg_addr (17 + i))) [0..<8] = state ctx"
    using s assms by (intro nth_equalityI) simp_all
  ultimately have round: "accel_round f r2 = r3"
    by (simp add: accel_round_def reg_addr_forms Let_def r3_def out_def)
  have o: "r3 (reg_addr (25 + i)) = out ! i" if "i < 8" for i
    unfolding r3_def using that by (intro fold_upd_apply [OF inj3]) simp
  have w1: "fold (\<lambda>i. WRITE_REG (accelerator f lat) (reg_addr (Suc i)) (msg_word d (4 * i))) [0..<16] w
            = \<lparr>hw = (hw w)\<lparr>regs := r1\<rparr>,
               trace = trace w @ map (\<lambda>i. Write (reg_addr (Suc i)) (msg_word d (4 * i))) [0..<16]\<rparr>"
  proof -
    have "fold (\<lambda>i. accel_write f lat (reg_addr (Suc i)) (msg_word d (4 * i))) [0..<16] (hw w)
          = (hw w)\<lparr>regs := r1\<rparr>"
      unfolding r1_def by (rule fold_accel_write) simp
    then show ?thesis by (simp add: fold_WRITE_REG accelerator_def)
  qed
  have w2: "fold (\<lambda>i. WRITE_REG (accelerator f lat) (reg_addr (17 + i)) (state ctx ! i)) [0..<8]
              \<lparr>hw = (hw w)\<lparr>regs := r1\<rparr>, trace = t\<rparr>
            = \<lparr>hw = (hw w)\<lparr>regs := r2\<rparr>,
               trace = t @ map (\<lambda>i. Write (reg_addr (17 + i)) (state ctx ! i)) [0..<8]\<rparr>" for t
  proof -
    have "fold (\<lambda>i. accel_write f lat (reg_addr (17 + i)) (state ctx ! i)) [0..<8] ((hw w)\<lparr>regs := r1\<rparr>)
          = (hw w)\<lparr>regs := r1\<rparr>\<lparr>regs := r2\<rparr>"
      unfolding r2_def
      using fold_accel_write [where xs = "[0..<8]" and k = "\<lambda>i. 17 + i" and f = f and lat = lat
          and a = "(hw w)\<lparr>regs := r1\<rparr>" and v = "\<lambda>i. state ctx ! i"]
      by simp
    then show ?thesis by (simp add: fold_WRITE_REG accelerator_def)
  qed
  have "hw (transform_issue (accelerator f lat) ctx d w) = \<lparr>regs = r3, finished = True, busy = lat\<rparr>"
    by (simp add: transform_issue_def Let_def reg_addr_forms w1 w2)
       (simp add: WRITE_REG_def accelerator_def accel_write_def reg_addr_forms CTRL_GO_def round)
  then have "transform_issue (accelerator f lat) ctx d w
       = \<lparr>hw = \<lparr>regs = r3, finished = True, busy = lat\<rparr>,
          trace = trace (transform_issue (accelerator f lat) ctx d w)\<rparr>"
    by (cases "transform_issue (accelerator f lat) ctx d w") simp
  then show ?thesis using o unfolding out_def by blast
qed

lemma accel_poll:
  "finished a \<Longrightarrow> busy a = k \<Longrightarrow>
   poll_done (accelerator f lat) \<lparr>hw = a, trace = t\<rparr>
   = Some \<lparr>hw = a\<lparr>busy := 0\<rparr>,
           trace = t @ replicate k (Read (reg_addr 0) 0) @ [Read (reg_addr 0) CTRL_DONE]\<rparr>"
proof (induction k arbitrary: a t)
  case 0
  then show ?case
    by (subst poll_done.simps)
       (simp add: READ_REG_def accelerator_def accel_read_def reg_addr_forms CTRL_DONE_def)
next
  case (Suc k)
  have "poll_done (accelerator f lat) \<lparr>hw = a, trace = t\<rparr>
        = poll_done (accelerator f lat) \<lparr>hw = a\<lparr>busy := k\<rparr>, trace = t @ [Read (reg_addr 0) 0]\<rparr>"
    using Suc.prems
    by (subst poll_done.simps)
       (simp add: READ_REG_def accelerator_def accel_read_def reg_addr_forms CTRL_DONE_def)
  also have "\<dots> = Some \<lparr>hw = a\<lparr>busy := k\<rparr>\<lparr>busy := 0\<rparr>,
           trace = (t @ [Read (reg_addr 0) 0]) @ replicate k (Read (reg_addr 0) 0)
                   @ [Read (reg_addr 0) CTRL_DONE]\<rparr>"
    using Suc.prems by (intro Suc.IH) simp_all
  finally show ?case by (simp add: replicate_app_Cons_same)
qed

lemma accel_collect:
  assumes "\<And>i. i \<in> set xs \<Longrightarrow> i < 8"
  shows "fold (collect_word (accelerator f lat)) xs (c, w)
         = (c\<lparr>state := fold (\<lambda>i s. s[i := regs (hw w) (reg_addr (25 + i))]) xs (state c)\<rparr>,
            \<lparr>hw = hw w,
             trace = trace w @ map (\<lambda>i. Read (reg_addr (25 + i)) (regs (hw w) (reg_addr (25 + i)))) xs\<rparr>)"
  using assms
proof (induction xs arbitrary: c w)
  case Nil
  show ?case by simp
next
  case (Cons i xs)
  have "i < 8" using Cons.prems [of i] by simp
  then have ne: "reg_addr (25 + i) \<noteq> reg_addr 0"
    by (simp add: reg_addr_inj)
  have step: "collect_word (accelerator f lat) i (c, w)
        = (c\<lparr>state := (state c)[i := regs (hw w) (reg_addr (25 + i))]\<rparr>,
           \<lparr>hw = hw w, trace = trace w @ [Read (reg_addr (25 + i)) (regs (hw w) (reg_addr (25 + i)))]\<rparr>)"
    using ne by (simp add: collect_word_def READ_REG_def accelerator_def accel_read_def reg_addr_forms)
  show ?case
    using Cons.prems by (simp add: step Cons.IH)
qed

lemma SHA256Transform_accel:
  assumes "64 \<le> length d" and "length (state ctx) = 8"
  shows "\<exists>w'. SHA256Transform (accelerator f lat) ctx d w
           = Returns (ctx\<lparr>state := map (\<lambda>i. f (block_words d) (state ctx) ! i) [0..<8]\<rparr>, w')"
proof -
  from accel_issue [OF assms(2), of f lat d w] obtain R tr where
    i: "transform_issue (accelerator f lat) ctx d w
        = \<lparr>hw = \<lparr>regs = R, finished = True, busy = lat\<rparr>, trace = tr\<rparr>"
    and R: "\<forall>i<8. R (reg_addr (25 + i)) = f (block_words d) (state ctx) ! i"
    by blast
  have p: "poll_done (accelerator f lat) (transform_issue (accelerator f lat) ctx d w)
        = Some \<lparr>hw = \<lparr>regs = R, finished = True, busy = 0\<rparr>,
           trace = tr @ replicate lat (Read (reg_addr 0) 0) @ [Read (reg_addr 0) CTRL_DONE]\<rparr>"
    unfolding i by (subst accel_poll [where k = lat]) simp_all
  have "fold (\<lambda>i s. s[i := R (reg_addr (25 + i))]) [0..<8] (state ctx)
        = map (\<lambda>i. R (reg_addr (25 + i))) [0..<8]"
    using assms(2) by (simp add: fold_list_update)
  also have "\<dots> = map (\<lambda>i. f (block_words d) (state ctx) ! i) [0..<8]"
    using R by simp
  finally have st: "fold (\<lambda>i s. s[i := R (reg_addr (25 + i))]) [0..<8] (state ctx)
        = map (\<lambda>i. f (block_words d) (state ctx) ! i) [0..<8]" .
  have "fold (collect_word (accelerator f lat)) [0..<8]
          (ctx, \<lparr>hw = \<lparr>regs = R, finished = True, busy = 0\<rparr>,
             trace = tr @ replicate lat (Read (reg_addr 0) 0) @ [Read (reg_addr 0) CTRL_DONE]\<rparr>)
        = (ctx\<lparr>state := map (\<lambda>i. f (block_words d) (state ctx) ! i) [0..<8]\<rparr>,
           \<lparr>hw = \<lparr>regs = R, finished = True, busy = 0\<rparr>,
            trace = (tr @ replicate lat (Read (reg_addr 0) 0) @ [Read (reg_addr 0) CTRL_DONE])
                    @ map (\<lambda>i. Read (reg_addr (25 + i)) (R (reg_addr (25 + i)))) [0..<8]\<rparr>)"
    by (subst accel_collect) (simp_all add: st)
  then show ?thesis
    using assms(1)
    by (simp add: SHA256Transform_def p transform_collect_def)
qed

section \<open>The order of the register accesses\<close>

lemma transform_issue_trace:
  "trace (transform_issue dev ctx d w) = trace w @ issue_events d (state ctx)"
proof -
  have "map (\<lambda>i. Write (REG_MSG_BASE REG_BASE0 + of_nat i * 4) (msg_word d (4 * i))) [0..<16]
        = map (\<lambda>i. Write (REG_MSG_BASE REG_BASE0 + of_nat i * 4) (block_words d ! i)) [0..<16]"
    by (simp add: block_words_def)
  then show ?thesis
    by (simp add: transform_issue_def Let_def fold_WRITE_REG issue_events_def WRITE_REG_def)
qed

lemma poll_steps_trace:
  "\<exists>vs. trace (snd (poll_steps n dev w)) = trace w @ poll_events vs \<and> length vs \<le> n
        \<and> all_busy (butlast vs)
        \<and> (fst (poll_steps n dev w) = (vs \<noteq> [] \<and> last vs AND CTRL_DONE \<noteq> 0))
        \<and> (fst (poll_steps n dev w) \<or> length vs = n)"
proof (induction n arbitrary: w)
  case 0
  show ?case by (simp add: poll_events_def all_busy_def)
next
  case (Suc n)
  obtain v w1 where r: "READ_REG dev (REG_CONTROL REG_BASE0) w = (v, w1)"
    by (cases "READ_REG dev (REG_CONTROL REG_BASE0) w")
  then have t1: "trace w1 = trace w @ [Read (REG_CONTROL REG_BASE0) v]"
    by (auto simp: READ_REG_def split: prod.splits)
  show ?case
  proof (cases "v AND CTRL_DONE = 0")
    case True
    from Suc.IH [of w1] obtain vs where
      vs: "trace (snd (poll_steps n dev w1)) = trace w1 @ poll_events vs" "length vs \<le> n"
        "all_busy (butlast vs)"
        "fst (poll_steps n dev w1) = (vs \<noteq> [] \<and> last vs AND CTRL_DONE \<noteq> 0)"
        "fst (poll_steps n dev w1) \<or> length vs = n"
      by blast
    have "all_busy (butlast (v # vs))"
      using True vs(3) by (cases vs) (simp_all add: all_busy_def)
    moreover have "fst (poll_steps (Suc n) dev w) = (v # vs \<noteq> [] \<and> last (v # vs) AND CTRL_DONE \<noteq> 0)"
      using True vs(4) by (simp add: r)
    ultimately show ?thesis
      using True vs(1,2,5) t1
      by (intro exI [of _ "v # vs"]) (simp add: r poll_events_def)
  next
    case False
    then show ?thesis
      using t1 by (intro exI [of _ "[v]"]) (simp add: r poll_events_def all_busy_def)
  qed
qed

lemma poll_steps_done:
  "poll_steps n dev w = (True, w') \<Longrightarrow> poll_done dev w = Some w'"
proof (induction n arbitrary: w)
  case 0
  then show ?case by simp
next
  case (Suc n)
  obtain v w1 where r: "READ_REG dev (REG_CONTROL REG_BASE0) w = (v, w1)"
    by (cases "READ_REG dev (REG_CONTROL REG_BASE0) w")
  show ?case
  proof (cases "v AND CTRL_DONE = 0")
    case True
    then have "poll_done dev w1 = Some w'"
      using Suc by (simp add: r)
    then show ?thesis
      using True by (subst poll_done.simps) (simp add: r)
  next
    case False
    then show ?thesis
      using Suc.prems by (subst poll_done.simps) (simp add: r)
  qed
qed

lemma poll_done_steps:
  assumes "poll_done dev w = Some w'"
  shows "\<exists>n. poll_steps n dev w = (True, w')"
proof (rule poll_done.raw_induct [where P = "\<lambda>dev w w'. \<exists>n. poll_steps n dev w = (True, w')", OF _ assms])
  fix poll :: "'a device \<Rightarrow> 'a bus \<Rightarrow> 'a bus option" and dev w w'
  assume IH: "\<And>dev w y. poll dev w = Some y \<Longrightarrow> \<exists>n. poll_steps n dev w = (True, y)"
    and eq: "(case READ_REG dev (REG_CONTROL REG_BASE0) w of
               (v, w') \<Rightarrow> if v AND CTRL_DONE = 0 then poll dev w' else Some w') = Some w'"
  obtain v w1 where r: "READ_REG dev (REG_CONTROL REG_BASE0) w = (v, w1)"
    by (cases "READ_REG dev (REG_CONTROL REG_BASE0) w")
  show "\<exists>n. poll_steps n dev w = (True, w')"
  proof (cases "v AND CTRL_DONE = 0")
    case True
    then have "poll dev w1 = Some w'" using eq by (simp add: r)
    then obtain n where "poll_steps n dev w1 = (True, w')" using IH by blast
    then have "poll_steps (Suc n) dev w = (True, w')" using True by (simp add: r)
    then show ?thesis by blast
  next
    case False
    then have "w' = w1" using eq by (simp add: r)
    then have "poll_steps (Suc 0) dev w = (True, w')" using False by (simp add: r)
    then show ?thesis by blast
  qed
qed

lemma poll_done_Some_iff:
  "(\<exists>w'. poll_done dev w = Some w') \<longleftrightarrow> (\<exists>n. fst (poll_steps n dev w))"
proof
  assume "\<exists>w'. poll_done dev w = Some w'"
  then obtain w' n where "poll_steps n dev w = (True, w')"
    using poll_done_steps by blast
  then have "fst (poll_steps n dev w)" by simp
  then show "\<exists>n. fst (poll_steps n dev w)" ..
next
  assume "\<exists>n. fst (poll_steps n dev w)"
  then obtain n where "fst (poll_steps n dev w)" ..
  then have "poll_steps n dev w = (True, snd (poll_steps n dev w))"
    by (cases "poll_steps n dev w") simp
  then show "\<exists>w'. poll_done dev w = Some w'"
    using poll_steps_done by blast
qed

lemma collect_fold_trace:
  "\<exists>outs. length outs = length xs
      \<and> trace (snd (fold (collect_word dev) xs (c, w)))
        = trace w @ map (\<lambda>(i, v). Read (REG_STATE_OUT_BASE REG_BASE0 + of_nat i * 4) v) (zip xs outs)"
proof (induction xs arbitrary: c w)
  case Nil
  show ?case by simp
next
  case (Cons i xs)
  obtain v w1 where r: "READ_REG dev (REG_STATE_OUT_BASE REG_BASE0 + of_nat i * 4) w = (v, w1)"
    by (cases "READ_REG dev (REG_STATE_OUT_BASE REG_BASE0 + of_nat i * 4) w")
  then have t1: "trace w1 = trace w @ [Read (REG_STATE_OUT_BASE REG_BASE0 + of_nat i * 4) v]"
    by (auto simp: READ_REG_def split: prod.splits)
  from Cons.IH [of "c\<lparr>state := (state c)[i := v]\<rparr>" w1] obtain outs where
    "length outs = length xs"
    "trace (snd (fold (collect_word dev) xs (c\<lparr>state := (state c)[i := v]\<rparr>, w1)))
     = trace w1 @ map (\<lambda>(i, v). Read (REG_STATE_OUT_BASE REG_BASE0 + of_nat i * 4) v) (zip xs outs)"
    by blast
  moreover have "collect_word dev i (c, w) = (c\<lparr>state := (state c)[i := v]\<rparr>, w1)"
    by (simp add: collect_word_def r)
  ultimately show ?case
    using t1 by (intro exI [of _ "v # outs"]) simp
qed

lemma transform_collect_trace:
  "\<exists>outs. length outs = 8 \<and> trace (snd (transform_collect dev ctx w)) = trace w @ collect_events outs"
proof -
  from collect_fold_trace [of "[0..<8]" dev ctx w] obtain outs where
    l: "length outs = 8"
    and t: "trace (snd (fold (collect_word dev) [0..<8] (ctx, w)))
        = trace w @ map (\<lambda>(i, v). Read (REG_STATE_OUT_BASE REG_BASE0 + of_nat i * 4) v) (zip [0..<8] outs)"
    by auto
  have "map (\<lambda>(i, v). Read (REG_STATE_OUT_BASE REG_BASE0 + of_nat i * 4) v) (zip [0..<8] outs)
        = collect_events outs"
    unfolding collect_events_def using l by (intro nth_equalityI) simp_all
  then show ?thesis using l t by (auto simp: transform_collect_def)
qed

lemma SHA256Transform_trace:
  assumes "traced (SHA256Transform dev ctx d w) = Some tr"
  shows "\<exists>vs v outs. tr = trace w @ issue_events d (state ctx) @ poll_events (vs @ [v])
                          @ collect_events outs
           \<and> all_busy vs \<and> v AND CTRL_DONE \<noteq> 0 \<and> length outs = 8"
proof -
  from assms obtain w1 where p: "poll_done dev (transform_issue dev ctx d w) = Some w1"
    and tr: "tr = trace (snd (transform_collect dev ctx w1))"
    by (cases "poll_done dev (transform_issue dev ctx d w)";
        cases "transform_collect dev ctx (the (poll_done dev (transform_issue dev ctx d w)))")
       (auto simp: SHA256Transform_def split: if_splits)
  from poll_done_steps [OF p] obtain n where
    n: "poll_steps n dev (transform_issue dev ctx d w) = (True, w1)" ..
  from poll_steps_trace [of n dev "transform_issue dev ctx d w"] obtain ps where
    ps: "trace w1 = trace (transform_issue dev ctx d w) @ poll_events ps"
      "all_busy (butlast ps)" "ps \<noteq> []" "last ps AND CTRL_DONE \<noteq> 0"
    by (auto simp: n)
  from transform_collect_trace [of dev ctx w1] obtain outs where
    outs: "length outs = 8" "trace (snd (transform_collect dev ctx w1)) = trace w1 @ collect_events outs"
    by blast
  have "ps = butlast ps @ [last ps]" using ps(3) by simp
  then have "tr = trace w @ issue_events d (state ctx) @ poll_events (butlast ps @ [last ps])
                  @ collect_events outs"
    using tr outs(2) ps(1) by (simp add: transform_issue_trace)
  then show ?thesis using ps(2,4) outs(1) by blast
qed

lemma stuck_never_done: "\<not> fst (poll_steps n stuck_device w)"
  by (induction n arbitrary: w) (simp_all add: READ_REG_def stuck_device_def)

lemma SHA256Transform_Hangs_iff:
  "SHA256Transform dev ctx d w = Hangs
   \<longleftrightarrow> 64 \<le> length d \<and> (\<forall>n. \<not> fst (poll_steps n dev (transform_issue dev ctx d w)))"
  using poll_done_Some_iff [of dev "transform_issue dev ctx d w"]
  by (auto simp: SHA256Transform_def split: option.splits)

lemma SHA256Transform_Returns_iff:
  "(\<exists>r. SHA256Transform dev ctx d w = Returns r)
   \<longleftrightarrow> 64 \<le> length d \<and> (\<exists>n. fst (poll_steps n dev (transform_issue dev ctx d w)))"
  using poll_done_Some_iff [of dev "transform_issue dev ctx d w"]
  by (auto simp: SHA256Transform_def split: option.splits)

lemma stuck_Hangs: "SHA256Transform stuck_device SHA256Init (data SHA256Init) stuck_bus = Hangs"
  by (simp add: SHA256Transform_Hangs_iff stuck_never_done SHA256Init_def)

lemma SHA256Transform_accel_trace:
  assumes "64 \<le> length d" and "length (state ctx) = 8"
  shows "\<exists>w'. SHA256Transform (accelerator f lat) ctx d w
           = Returns (ctx\<lparr>state := map (\<lambda>i. f (block_words d) (state ctx) ! i) [0..<8]\<rparr>, w')
         \<and> trace w' = trace w @ issue_events d (state ctx)
              @ poll_events (replicate lat 0 @ [CTRL_DONE])
              @ collect_events (f (block_words d) (state ctx))"
proof -
  from accel_issue [OF assms(2), of f lat d w] obtain R tr where
    i: "transform_issue (accelerator f lat) ctx d w
        = \<lparr>hw = \<lparr>regs = R, finished = True, busy = lat\<rparr>, trace = tr\<rparr>"
    and R: "\<forall>i<8. R (reg_addr (25 + i)) = f (block_words d) (state ctx) ! i"
    by blast
  have "trace (transform_issue (accelerator f lat) ctx d w) = tr"
    by (simp add: i)
  then have tr: "tr = trace w @ issue_events d (state ctx)"
    by (simp add: transform_issue_trace)
  have p: "poll_done (accelerator f lat) (transform_issue (accelerator f lat) ctx d w)
        = Some \<lparr>hw = \<lparr>regs = R, finished = True, busy = 0\<rparr>,
           trace = tr @ replicate lat (Read (reg_addr 0) 0) @ [Read (reg_addr 0) CTRL_DONE]\<rparr>"
    unfolding i by (subst accel_poll [where k = lat]) simp_all
  have "fold (\<lambda>i s. s[i := R (reg_addr (25 + i))]) [0..<8] (state ctx)
        = map (\<lambda>i. R (reg_addr (25 + i))) [0..<8]"
    using assms(2) by (simp add: fold_list_update)
  also have "\<dots> = map (\<lambda>i. f (block_words d) (state ctx) ! i) [0..<8]"
    using R by simp
  finally have st: "fold (\<lambda>i s. s[i := R (reg_addr (25 + i))]) [0..<8] (state ctx)
        = map (\<lambda>i. f (block_words d) (state ctx) ! i) [0..<8]" .
  have rd: "map (\<lambda>i. Read (reg_addr (25 + i)) (R (reg_addr (25 + i)))) [0..<8]
        = collect_events (f (block_words d) (state ctx))"
    using R by (simp add: collect_events_def reg_addr_forms)
  have pl: "replicate lat (Read (reg_addr 0) 0) @ [Read (reg_addr 0) CTRL_DONE]
        = poll_events (replicate lat 0 @ [CTRL_DONE])"
    by (simp add: poll_events_def reg_addr_forms)
  have "fold (collect_word (accelerator f lat)) [0..<8]
          (ctx, \<lparr>hw = \<lparr>regs = R, finished = True, busy = 0\<rparr>,
             trace = tr @ replicate lat (Read (reg_addr 0) 0) @ [Read (reg_addr 0) CTRL_DONE]\<rparr>)
        = (ctx\<lparr>state := map (\<lambda>i. f (block_words d) (state ctx) ! i) [0..<8]\<rparr>,
           \<lparr>hw = \<lparr>regs = R, finished = True, busy = 0\<rparr>,
            trace = (tr @ replicate lat (Read (reg_addr 0) 0) @ [Read (reg_addr 0) CTRL_DONE])
                    @ map (\<lambda>i. Read (reg_addr (25 + i)) (R (reg_addr (25 + i)))) [0..<8]\<rparr>)"
    by (subst accel_collect) (simp_all add: st)
  then show ?thesis
    using assms(1)
    by (simp add: SHA256Transform_def p transform_collect_def tr rd pl del: replicate_app_Cons_same)
qed

lemma SHA256Final_accel:
  assumes "length (data ctx) = 64" and "unat (datalen ctx) < 56" and "length (state ctx) = 8"
    and "bl = DBL_INT_ADD (bitlen ctx) (datalen ctx * 8)"
    and "blk = take (unat (datalen ctx)) (data ctx) @ [0x80]
               @ replicate (55 - unat (datalen ctx)) 0 @ be64_bytes (pair_value bl)"
    and "st = map (\<lambda>i. f (block_words blk) (state ctx) ! i) [0..<8]"
  shows "\<exists>w'. SHA256Final (accelerator f lat) ctx w
           = Returns (ctx\<lparr>bitlen := bl, data := blk, state := st\<rparr>, hash_bytes st, w')"
proof -
  have n: "unat (datalen ctx) < 64" using assms(2) by simp
  have l: "64 \<le> length blk"
    using assms(1,2) by (simp add: assms(5) be64_bytes_def)
  have "SHA256Final (accelerator f lat) ctx w
        = obind (SHA256Transform (accelerator f lat) (ctx\<lparr>bitlen := bl, data := blk\<rparr>) blk w)
            (\<lambda>(c, w'). Returns (c, hash_bytes (state c), w'))"
    using SHA256Final_closed_form [OF assms(1) n, of "accelerator f lat" w] assms(2)
    by (simp add: Let_def assms(4,5))
  moreover obtain w' where
    "SHA256Transform (accelerator f lat) (ctx\<lparr>bitlen := bl, data := blk\<rparr>) blk w
     = Returns (ctx\<lparr>bitlen := bl, data := blk\<rparr>
                  \<lparr>state := map (\<lambda>i. f (block_words blk) (state (ctx\<lparr>bitlen := bl, data := blk\<rparr>)) ! i) [0..<8]\<rparr>, w')"
    using SHA256Transform_accel [OF l, of "ctx\<lparr>bitlen := bl, data := blk\<rparr>" f lat w] assms(3)
    by auto
  ultimately show ?thesis by (simp add: assms(6))
qed

section \<open>The run on "abc"\<close>

lemma abc_update:
  "ofold (update_byte dev) [0x61, 0x62, 0x63] (SHA256Init, w)
   = Returns (\<lparr>data = [0x61, 0x62, 0x63] @ replicate 61 0, datalen = 3, bitlen = (0, 0),
               state = state SHA256Init\<rparr>, w)"
proof -
  have "(replicate 64 (0 :: uchar))[0 := 0x61, 1 := 0x62, 2 := 0x63] = [0x61, 0x62, 0x63] @ replicate 61 0"
    by code_simp
  then show ?thesis
    by (simp add: update_byte_def SHA256Init_def Let_def)
qed

lemma abc_block:
  "block_words ([0x61, 0x62, 0x63] @ [0x80] @ replicate 52 0 @ [0, 0, 0, 0, 0, 0, 0, 0x18])
   = [0x61626380, 0, 0, 0, 0, 0, 0, 0, 0, 0, 0, 0, 0, 0, 0, 0x18]"
  by code_simp

lemma abc_footer: "be64_bytes (pair_value (DBL_INT_ADD (0, 0) (3 * 8))) = [0, 0, 0, 0, 0, 0, 0, 0x18]"
proof -
  have "DBL_INT_ADD (0, 0) (3 * 8) = (0x18, 0)"
    by (simp add: DBL_INT_ADD_def)
  moreover have "[ucast (drop_bit 24 (0 :: uint)), ucast (drop_bit 16 (0 :: uint)), ucast (drop_bit 8 (0 :: uint)),
      ucast (0 :: uint), ucast (drop_bit 24 (0x18 :: uint)), ucast (drop_bit 16 (0x18 :: uint)),
      ucast (drop_bit 8 (0x18 :: uint)), ucast (0x18 :: uint)] = [0, 0, 0, 0, 0, 0, 0, 0x18 :: uchar]"
    by code_simp
  ultimately show ?thesis by (simp only: be64_bytes_pair)
qed

lemma abc_compress:
  "map (\<lambda>i. sha256_compress [0x61626380, 0, 0, 0, 0, 0, 0, 0, 0, 0, 0, 0, 0, 0, 0, 0x18]
            (state SHA256Init) ! i) [0..<8]
   = [0xba7816bf, 0x8f01cfea, 0x414140de, 0x5dae2223, 0xb00361a3, 0x96177a9c, 0xb410ff61, 0xf20015ad]"
  by code_simp

lemma abc_hash_bytes:
  "hash_bytes [0xba7816bf, 0x8f01cfea, 0x414140de, 0x5dae2223, 0xb00361a3, 0x96177a9c, 0xb410ff61, 0xf20015ad]
   = [0xba, 0x78, 0x16, 0xbf, 0x8f, 0x01, 0xcf, 0xea, 0x41, 0x41, 0x40, 0xde, 0x5d, 0xae, 0x22, 0x23,
      0xb0, 0x03, 0x61, 0xa3, 0x96, 0x17, 0x7a, 0x9c, 0xb4, 0x10, 0xff, 0x61, 0xf2, 0x00, 0x15, 0xad]"
  by code_simp

lemma abc_hex:
  "concat (map hex_byte
     [0xba, 0x78, 0x16, 0xbf, 0x8f, 0x01, 0xcf, 0xea, 0x41, 0x41, 0x40, 0xde, 0x5d, 0xae, 0x22, 0x23,
      0xb0, 0x03, 0x61, 0xa3, 0x96, 0x17, 0x7a, 0x9c, 0xb4, 0x10, 0xff, 0x61, 0xf2, 0x00, 0x15, 0xad])
   = ''ba7816bf8f01cfea414140de5dae2223b00361a396177a9cb410ff61f20015ad''"
  by (simp add: hex_byte_def hex_digit_def)

lemma abc_update_buffered:
  "ofold (update_byte dev) [0x61, 0x62, 0x63] (SHA256Init, w) = Returns (abc_buffered, w)"
proof -
  have "(replicate 64 (0 :: uchar))[0 := 0x61, 1 := 0x62, 2 := 0x63] = [0x61, 0x62, 0x63] @ replicate 61 0"
    by code_simp
  then show ?thesis
    by (simp add: update_byte_def SHA256Init_def Let_def abc_buffered_def)
qed

lemma abc_final1:
  "\<exists>w'. SHA256Final (accelerator sha256_compress lat) abc_buffered w
     = Returns (abc_finalized, hash_bytes (state abc_finalized), w')"
proof -
  have blk: "take (unat (datalen abc_buffered)) (data abc_buffered) @ [0x80]
               @ replicate (55 - unat (datalen abc_buffered)) 0
               @ be64_bytes (pair_value (DBL_INT_ADD (bitlen abc_buffered) (datalen abc_buffered * 8)))
             = [0x61, 0x62, 0x63] @ [0x80] @ replicate 52 0 @ [0, 0, 0, 0, 0, 0, 0, 0x18]"
    using abc_footer by (simp add: abc_buffered_def)
  have bl: "DBL_INT_ADD (bitlen abc_buffered) (datalen abc_buffered * 8) = (0x18, 0)"
    by (simp add: abc_buffered_def DBL_INT_ADD_def)
  have st: "map (\<lambda>i. sha256_compress
                 (block_words ([0x61, 0x62, 0x63] @ [0x80] @ replicate 52 0 @ [0, 0, 0, 0, 0, 0, 0, 0x18]))
                 (state abc_buffered) ! i) [0..<8]
            = state abc_finalized"
    using abc_compress by (simp only: abc_block) (simp add: abc_buffered_def abc_finalized_def)
  have "\<exists>w'. SHA256Final (accelerator sha256_compress lat) abc_buffered w
     = Returns (abc_buffered\<lparr>bitlen := (0x18, 0),
                  data := [0x61, 0x62, 0x63] @ [0x80] @ replicate 52 0 @ [0, 0, 0, 0, 0, 0, 0, 0x18],
                  state := state abc_finalized\<rparr>, hash_bytes (state abc_finalized), w')"
    using blk st
    by (intro SHA256Final_accel [where ctx = abc_buffered and f = sha256_compress
          and bl = "(0x18, 0)" and st = "state abc_finalized"
          and blk = "[0x61, 0x62, 0x63] @ [0x80] @ replicate 52 0 @ [0, 0, 0, 0, 0, 0, 0, 0x18]"])
       (simp_all add: bl, simp_all add: abc_buffered_def SHA256Init_def)
  moreover have "abc_buffered\<lparr>bitlen := (0x18, 0),
                  data := [0x61, 0x62, 0x63] @ [0x80] @ replicate 52 0 @ [0, 0, 0, 0, 0, 0, 0, 0x18],
                  state := state abc_finalized\<rparr> = abc_finalized"
    by (simp add: abc_buffered_def abc_finalized_def)
  ultimately show ?thesis by simp
qed

lemma returned_Some_iff: "returned m = Some x \<longleftrightarrow> (\<exists>w. m = Returns (x, w))"
  by (cases m) auto

section \<open>Padding at the end of the message\<close>

text \<open>
  C3. After the 0x80 byte is stored at position \<open>datalen\<close> the fill position is
  \<open>datalen + 1\<close>. \<open>SHA256Final\<close> runs the extra transform exactly when that position
  exceeds 56. At fill position 56 or less (\<open>datalen\<close> up to 55) there is one transform,
  on the block made of the buffered bytes, 0x80, zeros up to position 56 and the eight
  footer bytes. At a fill position above 56 the block is first zero-filled to 64 and
  transformed, and then a second transform runs on a fresh block of 56 zeros followed by
  the footer.
\<close>

theorem SHA256Final_extra_block:
  assumes "length (data ctx) = 64" and "unat (datalen ctx) < 64"
  shows "SHA256Final dev ctx w =
     (let n = unat (datalen ctx);
          bl = DBL_INT_ADD (bitlen ctx) (datalen ctx * 8);
          footer = be64_bytes (pair_value bl);
          single = take n (data ctx) @ [0x80] @ replicate (55 - n) 0 @ footer;
          filled = take n (data ctx) @ [0x80] @ replicate (63 - n) 0;
          fresh = replicate 56 0 @ footer
      in if n + 1 > 56
         then obind (SHA256Transform dev (ctx\<lparr>bitlen := bl, data := filled\<rparr>) filled w)
                (\<lambda>(c1, w1).
                   obind (SHA256Transform dev (c1\<lparr>data := fresh\<rparr>) fresh w1)
                     (\<lambda>(c2, w2). Returns (c2, hash_bytes (state c2), w2)))
         else obind (SHA256Transform dev (ctx\<lparr>bitlen := bl, data := single\<rparr>) single w)
                (\<lambda>(c, w'). Returns (c, hash_bytes (state c), w')))"
  using assms by (rule SHA256Final_closed_form)

lemma footer_440: "be64_bytes (pair_value (0x1b8, 0)) = [0, 0, 0, 0, 0, 0, 0x01, 0xb8]"
proof -
  have "[ucast (drop_bit 24 (0 :: uint)), ucast (drop_bit 16 (0 :: uint)), ucast (drop_bit 8 (0 :: uint)),
      ucast (0 :: uint), ucast (drop_bit 24 (0x1b8 :: uint)), ucast (drop_bit 16 (0x1b8 :: uint)),
      ucast (drop_bit 8 (0x1b8 :: uint)), ucast (0x1b8 :: uint)] = [0, 0, 0, 0, 0, 0, 0x01, 0xb8 :: uchar]"
    by code_simp
  then show ?thesis by (simp only: be64_bytes_pair)
qed

lemma footer_448: "be64_bytes (pair_value (0x1c0, 0)) = [0, 0, 0, 0, 0, 0, 0x01, 0xc0]"
proof -
  have "[ucast (drop_bit 24 (0 :: uint)), ucast (drop_bit 16 (0 :: uint)), ucast (drop_bit 8 (0 :: uint)),
      ucast (0 :: uint), ucast (drop_bit 24 (0x1c0 :: uint)), ucast (drop_bit 16 (0x1c0 :: uint)),
      ucast (drop_bit 8 (0x1c0 :: uint)), ucast (0x1c0 :: uint)] = [0, 0, 0, 0, 0, 0, 0x01, 0xc0 :: uchar]"
    by code_simp
  then show ?thesis by (simp only: be64_bytes_pair)
qed

theorem SHA256Final_extra_block_witness:
  "length (data (SHA256Init\<lparr>datalen := 55\<rparr>)) = 64 \<and> unat (datalen (SHA256Init\<lparr>datalen := 55\<rparr>)) < 64
   \<and> SHA256Final (accelerator sha256_compress 2) (SHA256Init\<lparr>datalen := 55\<rparr>) accel_reset
     = obind (SHA256Transform (accelerator sha256_compress 2)
                (SHA256Init\<lparr>datalen := 55, bitlen := (0x1b8, 0),
                   data := replicate 55 0 @ [0x80] @ [0, 0, 0, 0, 0, 0, 0x01, 0xb8]\<rparr>)
                (replicate 55 0 @ [0x80] @ [0, 0, 0, 0, 0, 0, 0x01, 0xb8]) accel_reset)
         (\<lambda>(c, w'). Returns (c, hash_bytes (state c), w'))
   \<and> length (data (SHA256Init\<lparr>datalen := 56\<rparr>)) = 64 \<and> unat (datalen (SHA256Init\<lparr>datalen := 56\<rparr>)) < 64
   \<and> SHA256Final (accelerator sha256_compress 2) (SHA256Init\<lparr>datalen := 56\<rparr>) accel_reset
     = obind (SHA256Transform (accelerator sha256_compress 2)
                (SHA256Init\<lparr>datalen := 56, bitlen := (0x1c0, 0),
                   data := replicate 56 0 @ [0x80] @ replicate 7 0\<rparr>)
                (replicate 56 0 @ [0x80] @ replicate 7 0) accel_reset)
         (\<lambda>(c1, w1).
            obind (SHA256Transform (accelerator sha256_compress 2)
                     (c1\<lparr>data := replicate 56 0 @ [0, 0, 0, 0, 0, 0, 0x01, 0xc0]\<rparr>)
                     (replicate 56 0 @ [0, 0, 0, 0, 0, 0, 0x01, 0xc0]) w1)
              (\<lambda>(c2, w2). Returns (c2, hash_bytes (state c2), w2)))"
proof -
  have a: "length (data (SHA256Init\<lparr>datalen := 55\<rparr>)) = 64"
    and b: "unat (datalen (SHA256Init\<lparr>datalen := 55\<rparr>)) < 64"
    and c: "length (data (SHA256Init\<lparr>datalen := 56\<rparr>)) = 64"
    and d: "unat (datalen (SHA256Init\<lparr>datalen := 56\<rparr>)) < 64"
    by (simp_all add: SHA256Init_def)
  have f55: "be64_bytes (pair_value (440, 0)) = [0, 0, 0, 0, 0, 0, 0x01, 0xb8]"
    using footer_440 by simp
  have f56: "be64_bytes (pair_value (448, 0)) = [0, 0, 0, 0, 0, 0, 0x01, 0xc0]"
    using footer_448 by simp
  have b55: "DBL_INT_ADD (bitlen SHA256Init) 440 = (0x1b8, 0)"
    and b56: "DBL_INT_ADD (bitlen SHA256Init) 448 = (0x1c0, 0)"
    by (simp_all add: SHA256Init_def DBL_INT_ADD_def)
  have t: "take 55 (data SHA256Init) = replicate 55 0" "take 56 (data SHA256Init) = replicate 56 0"
    by (simp_all add: SHA256Init_def)
  show ?thesis
    using SHA256Final_extra_block [OF a b, of "accelerator sha256_compress 2" accel_reset]
      SHA256Final_extra_block [OF c d, of "accelerator sha256_compress 2" accel_reset] a b c d
    by (simp add: Let_def f55 f56 b55 b56 t)
qed

section \<open>The bit counter\<close>

text \<open>
  C5. The pair \<open>(lo, hi)\<close> updated by \<open>DBL_INT_ADD\<close> behaves as one 64-bit counter:
  the value \<open>hi * 2^32 + lo\<close> after the macro is the old value plus \<open>c\<close> modulo
  \<open>2^64\<close>; a sequence of such additions from zero equals the same sequence of native
  64-bit additions, that is the sum of the increments modulo \<open>2^64\<close>; and when
  \<open>SHA256Final\<close> returns, bytes 56 to 63 of the block it leaves in the context (the
  block of its last transform) are the big-endian encoding of the counter, which is the
  counter at entry plus eight times \<open>datalen\<close>.
\<close>

theorem bit_counter_refinement:
  "pair_value (DBL_INT_ADD p c) = add64 (pair_value p) (unat c)
   \<and> pair_value (fold (\<lambda>c p. DBL_INT_ADD p c) cs (0, 0)) = fold (\<lambda>c t. add64 t (unat c)) cs 0
   \<and> pair_value (fold (\<lambda>c p. DBL_INT_ADD p c) cs (0, 0)) = sum_list (map unat cs) mod 2 ^ 64
   \<and> (length (data ctx) = 64 \<and> returned (SHA256Final dev ctx w) = Some ctx' \<longrightarrow>
        pair_value (bitlen ctx') = add64 (pair_value (bitlen ctx)) (8 * unat (datalen ctx))
        \<and> drop 56 (data ctx') = be64_bytes (pair_value (bitlen ctx')))"
proof -
  have z: "pair_value (0, 0) = 0" by (simp add: pair_value_def)
  have 1: "pair_value (DBL_INT_ADD p c) = add64 (pair_value p) (unat c)"
    by (rule DBL_INT_ADD_value)
  have 2: "pair_value (fold (\<lambda>c p. DBL_INT_ADD p c) cs (0, 0)) = fold (\<lambda>c t. add64 t (unat c)) cs 0"
    by (simp add: DBL_INT_ADD_fold z)
  have 3: "pair_value (fold (\<lambda>c p. DBL_INT_ADD p c) cs (0, 0)) = sum_list (map unat cs) mod 2 ^ 64"
    using add64_fold_sum [of 0 cs] by (simp add: 2)
  have 4: "pair_value (bitlen ctx') = add64 (pair_value (bitlen ctx)) (8 * unat (datalen ctx))
        \<and> drop 56 (data ctx') = be64_bytes (pair_value (bitlen ctx'))"
    if l: "length (data ctx) = 64" and r: "returned (SHA256Final dev ctx w) = Some ctx'"
  proof -
    from r obtain h w' where r': "SHA256Final dev ctx w = Returns (ctx', h, w')"
      by (auto simp: returned_Some_iff)
    note R = SHA256Final_Returns [OF r' l]
    show ?thesis
      using R(1) R(5) by (simp add: R(2) DBL_INT_ADD_value unat_datalen8)
  qed
  from 1 2 3 4 show ?thesis by blast
qed

theorem bit_counter_refinement_witness:
  "length (data abc_buffered) = 64
   \<and> returned (SHA256Final (accelerator sha256_compress 2) abc_buffered accel_reset) = Some abc_finalized
   \<and> pair_value (bitlen abc_finalized) = add64 (pair_value (bitlen abc_buffered)) (8 * unat (datalen abc_buffered))
   \<and> drop 56 (data abc_finalized) = be64_bytes (pair_value (bitlen abc_finalized))"
proof -
  have l: "length (data abc_buffered) = 64" by (simp add: abc_buffered_def)
  have r: "returned (SHA256Final (accelerator sha256_compress 2) abc_buffered accel_reset) = Some abc_finalized"
    using abc_final1 [of 2 accel_reset] by auto
  from bit_counter_refinement [of "(0, 0)" 0 "[]" abc_buffered "accelerator sha256_compress 2" accel_reset abc_finalized]
  show ?thesis using l r by blast
qed

section \<open>The completion poll\<close>

text \<open>
  C7, as amended. The completion poll has no bound and no timeout outcome: the transform
  does not return exactly when no number of poll iterations ever observes DONE, and it
  returns exactly when some poll observes it (the block being 64 bytes long).
\<close>

theorem completion_poll_unbounded:
  "(SHA256Transform dev ctx d w = Hangs
      \<longleftrightarrow> 64 \<le> length d \<and> (\<forall>n. \<not> fst (poll_steps n dev (transform_issue dev ctx d w))))
   \<and> ((\<exists>r. SHA256Transform dev ctx d w = Returns r)
      \<longleftrightarrow> 64 \<le> length d \<and> (\<exists>n. fst (poll_steps n dev (transform_issue dev ctx d w))))"
  using SHA256Transform_Hangs_iff [of dev ctx d w] SHA256Transform_Returns_iff [of dev ctx d w]
  by blast

text \<open>
  C7 as stated fails: on a device that never shows DONE the transform spins forever (no
  HardwareTimeout is reported), and it is still polling after a million iterations.
\<close>

theorem completion_poll_never_times_out:
  "SHA256Transform stuck_device SHA256Init (data SHA256Init) stuck_bus = Hangs
   \<and> \<not> fst (poll_steps 1000000 stuck_device
               (transform_issue stuck_device SHA256Init (data SHA256Init) stuck_bus))"
  using stuck_Hangs stuck_never_done by blast

section \<open>The test vector "abc"\<close>

lemma abc_digest:
  "returned (SHA256 (accelerator sha256_compress lat) True [0x61, 0x62, 0x63, 0] w)
   = Some (Some ''ba7816bf8f01cfea414140de5dae2223b00361a396177a9cb410ff61f20015ad'')"
proof -
  have n: "0 \<notin> set [0x61, 0x62, 0x63 :: uchar]" by simp
  have t: "take (unat (of_nat (length [0x61, 0x62, 0x63 :: uchar]) :: uint)) [0x61, 0x62, 0x63 :: uchar]
           = [0x61, 0x62, 0x63]"
    by simp
  obtain w' where f: "SHA256Final (accelerator sha256_compress lat) abc_buffered w
     = Returns (abc_finalized, hash_bytes (state abc_finalized), w')"
    using abc_final1 by blast
  have h: "concat (map hex_byte (hash_bytes (state abc_finalized)))
           = ''ba7816bf8f01cfea414140de5dae2223b00361a396177a9cb410ff61f20015ad''"
    by (simp only: abc_finalized_def SHA256_CTX.simps abc_hash_bytes abc_hex)
  have "SHA256 (accelerator sha256_compress lat) True ([0x61, 0x62, 0x63] @ 0 # []) w
        = Returns (Some ''ba7816bf8f01cfea414140de5dae2223b00361a396177a9cb410ff61f20015ad'', w')"
    by (simp only: SHA256_prefix [OF n] t abc_update_buffered obind.simps prod.case f h)
  then show ?thesis by simp
qed

text \<open>
  C8, as amended. With the accelerator computing the FIPS 180-4 compression function
  (whatever its latency and the state of the bus), the one-shot hash of the three bytes
  "abc" is the hex string
  ba7816bf8f01cfea414140de5dae2223b00361a396177a9cb410ff61f20015ad, the test vector of
  the standard.
\<close>

theorem abc_test_vector:
  "returned (SHA256 (accelerator sha256_compress lat) True [0x61, 0x62, 0x63, 0] w)
   = Some (Some ''ba7816bf8f01cfea414140de5dae2223b00361a396177a9cb410ff61f20015ad'')"
  by (rule abc_digest)

text \<open>
  C8 as stated fails: the string of the specification has the digit b where the digest
  has f (its last word reads b20015ad instead of f20015ad).
\<close>

theorem abc_test_vector_of_spec_fails:
  "returned (SHA256 (accelerator sha256_compress 0) True [0x61, 0x62, 0x63, 0] accel_reset)
   \<noteq> Some (Some ''ba7816bf8f01cfea414140de5dae2223b00361a396177a9cb410ff61b20015ad'')"
  by (simp add: abc_digest)

section \<open>The order of the register accesses of a transform\<close>

text \<open>
  C6. Every execution of the transform accesses the registers in the required order.
  When the call returns, the accesses it added to the log are: the 16 big-endian message
  words, the 8 state-in words, Control = 0, Control = GO, the reads of Control, of which
  all but the last show DONE clear and the last shows DONE, and then the 8 reads of the
  state-out words. While it has not returned (after any number \<open>n\<close> of poll iterations)
  the log holds the same 26 writes followed by reads of Control only, so GO never comes
  before a message or state-in write and no state-out word is read before DONE.
\<close>

theorem register_access_order:
  "(traced (SHA256Transform dev ctx d w) = Some tr \<longrightarrow>
      (\<exists>vs v outs. tr = trace w @ issue_events d (state ctx) @ poll_events (vs @ [v])
                          @ collect_events outs
           \<and> all_busy vs \<and> v AND CTRL_DONE \<noteq> 0 \<and> length outs = 8))
   \<and> (\<exists>vs. trace (snd (poll_steps n dev (transform_issue dev ctx d w)))
             = trace w @ issue_events d (state ctx) @ poll_events vs
           \<and> length vs \<le> n \<and> all_busy (butlast vs)
           \<and> (fst (poll_steps n dev (transform_issue dev ctx d w))
                = (vs \<noteq> [] \<and> last vs AND CTRL_DONE \<noteq> 0)))"
proof -
  from poll_steps_trace [of n dev "transform_issue dev ctx d w"] obtain vs where
    "trace (snd (poll_steps n dev (transform_issue dev ctx d w)))
       = trace (transform_issue dev ctx d w) @ poll_events vs"
    "length vs \<le> n" "all_busy (butlast vs)"
    "fst (poll_steps n dev (transform_issue dev ctx d w)) = (vs \<noteq> [] \<and> last vs AND CTRL_DONE \<noteq> 0)"
    by blast
  then have "\<exists>vs. trace (snd (poll_steps n dev (transform_issue dev ctx d w)))
             = trace w @ issue_events d (state ctx) @ poll_events vs
           \<and> length vs \<le> n \<and> all_busy (butlast vs)
           \<and> (fst (poll_steps n dev (transform_issue dev ctx d w))
                = (vs \<noteq> [] \<and> last vs AND CTRL_DONE \<noteq> 0))"
    by (intro exI [of _ vs]) (simp add: transform_issue_trace)
  then show ?thesis
    using SHA256Transform_trace [of dev ctx d w tr] by blast
qed

theorem register_access_order_witness:
  "traced (SHA256Transform (accelerator sha256_compress 2) SHA256Init (data abc_finalized) accel_reset)
     = Some (trace accel_reset @ issue_events (data abc_finalized) (state SHA256Init)
             @ poll_events (replicate 2 0 @ [CTRL_DONE])
             @ collect_events (sha256_compress (block_words (data abc_finalized)) (state SHA256Init)))
   \<and> (\<exists>vs v outs.
         trace accel_reset @ issue_events (data abc_finalized) (state SHA256Init)
           @ poll_events (replicate 2 0 @ [CTRL_DONE])
           @ collect_events (sha256_compress (block_words (data abc_finalized)) (state SHA256Init))
         = trace accel_reset @ issue_events (data abc_finalized) (state SHA256Init)
           @ poll_events (vs @ [v]) @ collect_events outs
         \<and> all_busy vs \<and> v AND CTRL_DONE \<noteq> 0 \<and> length outs = 8)"
proof -
  have "64 \<le> length (data abc_finalized)" "length (state SHA256Init) = 8"
    by (simp_all add: abc_finalized_def SHA256Init_def)
  from SHA256Transform_accel_trace [OF this, of sha256_compress 2 accel_reset]
  have h: "traced (SHA256Transform (accelerator sha256_compress 2) SHA256Init (data abc_finalized) accel_reset)
     = Some (trace accel_reset @ issue_events (data abc_finalized) (state SHA256Init)
             @ poll_events (replicate 2 0 @ [CTRL_DONE])
             @ collect_events (sha256_compress (block_words (data abc_finalized)) (state SHA256Init)))"
    by auto
  from register_access_order [of "accelerator sha256_compress 2" SHA256Init "data abc_finalized"
      accel_reset _ 0] h
  show ?thesis by blast
qed

end
